theory Spec2Isabelle
  imports Main "HOL-Library.Multiset" "HOL-Library.Log_Nat"
begin

section \<open>Go runtime values used by parprog\<close>

text \<open>
  A Go \<open>error\<close> value is modelled by its message; the \<open>nil\<close> error is \<open>None\<close>.
  A runtime panic is a value of \<open>panic\<close>: every operation that can panic returns
  \<open>panic + 'a\<close>, with \<open>Inl\<close> for the panic.
\<close>

type_synonym go_error = string

datatype panic = SliceBoundsOutOfRange | IndexOutOfRange | MakechanSizeOutOfRange

text \<open>
  \<open>time.Time\<close> is an instant of the wall clock, counted in nanoseconds;
  \<open>time.Duration\<close> is a signed 64-bit count of nanoseconds.
\<close>

type_synonym time = int
type_synonym duration = int

definition Second :: duration where
  "Second = 1000000000"

definition minDuration :: duration where
  "minDuration = - (2 ^ 63)"

definition maxDuration :: duration where
  "maxDuration = 2 ^ 63 - 1"

text \<open>\<open>t.Truncate(d)\<close> rounds \<open>t\<close> down to a multiple of \<open>d\<close>; for \<open>d \<le> 0\<close> it returns \<open>t\<close>.\<close>

definition Truncate :: "time \<Rightarrow> duration \<Rightarrow> time" where
  "Truncate t d = (if d \<le> 0 then t else t - t mod d)"

text \<open>\<open>t.Sub(u)\<close> is \<open>t - u\<close>, saturated to the range of \<open>Duration\<close>.\<close>

definition Sub :: "time \<Rightarrow> time \<Rightarrow> duration" where
  "Sub t u = (if t - u < minDuration then minDuration
              else if maxDuration < t - u then maxDuration
              else t - u)"

text \<open>Go's \<open>int\<close> is 64 bits wide: \<open>+\<close> wraps, \<open>%\<close> truncates towards zero.\<close>

definition wrap64 :: "int \<Rightarrow> int" where
  "wrap64 x = (x + 2 ^ 63) mod 2 ^ 64 - 2 ^ 63"

definition go_rem :: "int \<Rightarrow> int \<Rightarrow> int" where
  "go_rem a b = (if 0 \<le> a then a mod \<bar>b\<bar> else - ((- a) mod \<bar>b\<bar>))"

text \<open>
  A \<open>float64\<close> is a finite value, an infinity or NaN. The sign of a zero is not kept.
\<close>

datatype float64 = Finite rat | PosInf | NegInf | NaN

definition pow2 :: "int \<Rightarrow> rat" where
  "pow2 k = (if 0 \<le> k then 2 ^ nat k else 1 / 2 ^ nat (- k))"

text \<open>For \<open>0 < x\<close>, \<open>ilog2 x\<close> is the exponent \<open>e\<close> with \<open>2\<^sup>e \<le> x < 2\<^sup>e\<^sup>+\<^sup>1\<close>.\<close>

definition ilog2 :: "rat \<Rightarrow> int" where
  "ilog2 x = (let k = bitlen (fst (quotient_of x)) - bitlen (snd (quotient_of x))
              in if pow2 k \<le> x then k else k - 1)"

definition round_half_even :: "rat \<Rightarrow> int" where
  "round_half_even x =
     (let n = \<lfloor>x\<rfloor>; d = x - of_int n
      in if d < 1 / 2 then n else if 1 / 2 < d then n + 1 else if even n then n else n + 1)"

text \<open>
  Rounding of an exact value to the nearest \<open>float64\<close>, ties to even: 53 significant
  bits, the quantum of the subnormals below \<open>2\<^sup>-\<^sup>1\<^sup>0\<^sup>2\<^sup>2\<close>, an infinity from \<open>2\<^sup>1\<^sup>0\<^sup>2\<^sup>4\<close> on.
\<close>

definition round_float64 :: "rat \<Rightarrow> float64" where
  "round_float64 x =
     (if x = 0 then Finite 0
      else let e = max (ilog2 \<bar>x\<bar>) (- 1022);
               q = pow2 (e - 52);
               y = of_int (round_half_even (x / q)) * q
           in if pow2 1024 \<le> \<bar>y\<bar> then (if 0 < x then PosInf else NegInf) else Finite y)"

text \<open>The conversion \<open>float64(i)\<close> of an integer.\<close>

definition float64_of_int :: "int \<Rightarrow> float64" where
  "float64_of_int i = round_float64 (of_int i)"

text \<open>
  Division of two \<open>float64\<close> values. A zero divisor is taken as \<open>+0\<close>: the only zero
  divisor of this program is \<open>float64(0) / 100.0\<close>.
\<close>

fun fdiv :: "float64 \<Rightarrow> float64 \<Rightarrow> float64" where
  "fdiv NaN _ = NaN"
| "fdiv _ NaN = NaN"
| "fdiv (Finite x) (Finite y) =
     (if y = 0 then (if x = 0 then NaN else if 0 < x then PosInf else NegInf)
      else round_float64 (x / y))"
| "fdiv (Finite x) PosInf = Finite 0"
| "fdiv (Finite x) NegInf = Finite 0"
| "fdiv PosInf (Finite y) = (if 0 \<le> y then PosInf else NegInf)"
| "fdiv NegInf (Finite y) = (if 0 \<le> y then NegInf else PosInf)"
| "fdiv PosInf PosInf = NaN"
| "fdiv PosInf NegInf = NaN"
| "fdiv NegInf PosInf = NaN"
| "fdiv NegInf NegInf = NaN"

text \<open>
  What the verb \<open>%6.2f\<close> prints for a finite value: the value rounded to hundredths,
  ties to even, given as the number of hundredths.
\<close>

fun hundredths :: "float64 \<Rightarrow> int option" where
  "hundredths (Finite x) = Some (round_half_even (x * 100))"
| "hundredths _ = None"

section \<open>Progress sources (status.go)\<close>

definition Wheel :: string where
  "Wheel = [CHR ''/'', CHR ''-'', CHR 0x5C, CHR ''|'']"

record spinner =
  sp_w :: int
  sp_start :: time
  sp_elapsed :: duration

text \<open>An \<open>*os.File\<close> is named by a number; what \<open>Stat\<close> and \<open>Seek\<close> return for it is
  observed from outside at each call.\<close>

type_synonym os_File = nat

record fileWrapper =
  fw_sz :: float64
  fw_f :: os_File
  fw_start :: time
  fw_elapsed :: duration

text \<open>
  \<open>readStatusInterface\<close> has the two implementations \<open>*spinner\<close> and \<open>*fileWrapper\<close>.
  Every \<open>Add\<close> allocates a fresh one, so no two entries share a view and the pointer
  is modelled by the value it points to.
\<close>

datatype view = Spinner spinner | FileWrapper fileWrapper

text \<open>
  The string a status query returns is kept as the verb list of its \<open>Sprintf\<close>:
  \<open>Percent_line d x\<close> stands for \<open>Sprintf("%s %6.2f%%", d.String(), x)\<close> and
  \<open>Wheel_line d c\<close> for \<open>Sprintf("%s    %c   ", d.String(), c)\<close>.
\<close>

datatype status = Percent_line duration float64 | Wheel_line duration char

text \<open>The indexing \<open>Wheel[i]\<close>.\<close>

definition Wheel_at :: "int \<Rightarrow> panic + char" where
  "Wheel_at i = (if 0 \<le> i \<and> i < int (length Wheel) then Inr (Wheel ! nat i)
                 else Inl IndexOutOfRange)"

definition newSpinner :: "time \<Rightarrow> spinner" where
  "newSpinner now = \<lparr>sp_w = 0, sp_start = Truncate now Second, sp_elapsed = 0\<rparr>"

text \<open>\<open>now\<close> is what \<open>time.Now()\<close> returns during the call.\<close>

definition spinner_readStatus :: "spinner \<Rightarrow> time \<Rightarrow> panic + status \<times> spinner" where
  "spinner_readStatus s now =
     (if sp_elapsed s \<noteq> 0 then Inr (Percent_line (sp_elapsed s) (Finite 100), s)
      else let s' = s\<lparr>sp_w := go_rem (wrap64 (sp_w s + 1)) (int (length Wheel))\<rparr>
           in case Wheel_at (sp_w s') of
                Inl p \<Rightarrow> Inl p
              | Inr c \<Rightarrow> Inr (Wheel_line (Sub (Truncate now Second) (sp_start s')) c, s'))"

definition spinner_done :: "spinner \<Rightarrow> time \<Rightarrow> spinner" where
  "spinner_done s now =
     (let s' = s\<lparr>sp_elapsed := Sub (Truncate now Second) (sp_start s)\<rparr>
      in if sp_elapsed s' = 0 then s'\<lparr>sp_elapsed := Second\<rparr> else s')"

definition fileWrapper_done :: "fileWrapper \<Rightarrow> time \<Rightarrow> fileWrapper" where
  "fileWrapper_done w now = w\<lparr>fw_elapsed := Sub (Truncate now Second) (fw_start w)\<rparr>"

text \<open>\<open>stat\<close> is what \<open>f.Stat()\<close> returns: an error, or the \<open>Size()\<close> of the file info.\<close>

definition wrapFile :: "os_File \<Rightarrow> go_error + int \<Rightarrow> time \<Rightarrow> go_error + fileWrapper" where
  "wrapFile f stat now =
     (case stat of
        Inl err \<Rightarrow> Inl err
      | Inr n \<Rightarrow> Inr \<lparr>fw_sz = fdiv (float64_of_int n) (Finite 100), fw_f = f,
                     fw_start = Truncate now Second, fw_elapsed = 0\<rparr>)"

text \<open>\<open>seek\<close> is what \<open>w.f.Seek(0, os.SEEK_CUR)\<close> returns, should the call be made.\<close>

definition fileWrapper_readStatus ::
  "fileWrapper \<Rightarrow> time \<Rightarrow> go_error + int \<Rightarrow> status \<times> fileWrapper" where
  "fileWrapper_readStatus w now seek =
     (if fw_elapsed w \<noteq> 0 then (Percent_line (fw_elapsed w) (Finite 100), w)
      else case seek of
             Inl err \<Rightarrow>
               (let w' = w\<lparr>fw_elapsed := Sub (Truncate now Second) (fw_start w)\<rparr>
                in (Percent_line (fw_elapsed w') (Finite 100), w'))
           | Inr pos \<Rightarrow>
               (Percent_line (Sub (Truncate now Second) (fw_start w))
                  (fdiv (float64_of_int pos) (fw_sz w)), w))"

text \<open>The two methods of the interface, \<open>readStatus\<close> and \<open>done\<close>, dispatched on the
  implementation.\<close>

fun readStatus :: "view \<Rightarrow> time \<Rightarrow> go_error + int \<Rightarrow> panic + status \<times> view" where
  "readStatus (Spinner s) now seek =
     (case spinner_readStatus s now of
        Inl p \<Rightarrow> Inl p
      | Inr (st, s') \<Rightarrow> Inr (st, Spinner s'))"
| "readStatus (FileWrapper w) now seek =
     (case fileWrapper_readStatus w now seek of (st, w') \<Rightarrow> Inr (st, FileWrapper w'))"

fun view_done :: "view \<Rightarrow> time \<Rightarrow> view" where
  "view_done (Spinner s) now = Spinner (spinner_done s now)"
| "view_done (FileWrapper w) now = FileWrapper (fileWrapper_done w now)"

section \<open>The registry (type Viz)\<close>

record readInfo =
  Name :: string
  View :: view
  Error :: "go_error option"

text \<open>
  The model covers a \<open>Viz\<close> between \<open>Start\<close> and \<open>Stop\<close>: the mutex is allocated,
  and every method body runs under it, so a method is one atomic step on the record.
  The terminal and the \<open>quit\<close> channel are not part of the record.
\<close>

record Viz =
  readers :: "readInfo list"
  interval :: duration
  started :: time

text \<open>The zero value of the struct, and \<open>Start\<close> at the instant \<open>now\<close>.\<close>

definition zero_Viz :: Viz where
  "zero_Viz = \<lparr>readers = [], interval = 0, started = 0\<rparr>"

definition Start :: "Viz \<Rightarrow> duration \<Rightarrow> time \<Rightarrow> Viz" where
  "Start v refreshInterval now = v\<lparr>started := Truncate now Second, interval := refreshInterval\<rparr>"

text \<open>
  What a call observes from outside the program: \<open>w_now\<close> is \<open>time.Now()\<close> where the
  call builds or completes a view, \<open>w_stat\<close> the result of \<open>f.Stat()\<close> on the file
  handed to \<open>Add\<close>, \<open>w_height\<close> the height \<open>termbox.Size()\<close> reports, and
  \<open>w_probe ri\<close> the pair of \<open>time.Now()\<close> and the result of \<open>Seek\<close> seen while the
  row of \<open>readers[ri]\<close> is drawn.
\<close>

record world =
  w_now :: time
  w_stat :: "go_error + int"
  w_height :: int
  w_probe :: "nat \<Rightarrow> time \<times> (go_error + int)"

text \<open>
  The row loop of \<open>redrawLocked\<close>. Each row calls \<open>readStatus\<close> on the view of
  \<open>readers[ri]\<close>, which may change that view; the cells written to the terminal
  are not modelled.
\<close>

function redraw_rows ::
  "readInfo list \<Rightarrow> (nat \<Rightarrow> time \<times> (go_error + int)) \<Rightarrow> int \<Rightarrow> int \<Rightarrow> int
     \<Rightarrow> panic + readInfo list" where
  "redraw_rows rs probe y ymax ri =
     (if y < ymax then
        (let ri' = ri - 1
         in if 0 \<le> ri' \<and> ri' < int (length rs) then
              (let r = rs ! nat ri'
               in case readStatus (View r) (fst (probe (nat ri'))) (snd (probe (nat ri'))) of
                    Inl p \<Rightarrow> Inl p
                  | Inr (st, vw) \<Rightarrow>
                      redraw_rows (rs[nat ri' := r\<lparr>View := vw\<rparr>]) probe (y + 1) ymax ri')
            else Inl IndexOutOfRange)
      else Inr rs)"
  by pat_completeness auto
termination
  by (relation "measure (\<lambda>(rs, probe, y, ymax, ri). nat (ymax - y))") auto

definition redrawLocked :: "Viz \<Rightarrow> world \<Rightarrow> panic + Viz" where
  "redrawLocked v wd =
     (let h = w_height wd;
          ri = int (length (readers v));
          ymax = int (length (readers v)) + 1;
          ymax = (if ymax > h then h else ymax)
      in case redraw_rows (readers v) (w_probe wd) 1 ymax ri of
           Inl p \<Rightarrow> Inl p
         | Inr rs \<Rightarrow> Inr (v\<lparr>readers := rs\<rparr>))"

text \<open>The dynamic type of the value handed to \<open>Add\<close>, as its type switch sees it.\<close>

datatype reader = GzipReader | OsFile os_File | OtherReader

definition Add :: "Viz \<Rightarrow> string \<Rightarrow> reader \<Rightarrow> world \<Rightarrow> panic + Viz" where
  "Add v name rdr wd =
     (let info =
        (case rdr of
           GzipReader \<Rightarrow>
             \<lparr>Name = name, View = Spinner (newSpinner (w_now wd)),
              Error = Some ''cannot inspect gzip.Reader, use wrapped Reader''\<rparr>
         | OsFile x \<Rightarrow>
             (case wrapFile x (w_stat wd) (w_now wd) of
                Inl err \<Rightarrow>
                  \<lparr>Name = name, View = Spinner (newSpinner (w_now wd)), Error = Some err\<rparr>
              | Inr fw \<Rightarrow> \<lparr>Name = name, View = FileWrapper fw, Error = None\<rparr>)
         | OtherReader \<Rightarrow>
             \<lparr>Name = name, View = Spinner (newSpinner (w_now wd)), Error = None\<rparr>)
      in redrawLocked (v\<lparr>readers := readers v @ [info]\<rparr>) wd)"

text \<open>The loop of \<open>Complete\<close>, from index \<open>i\<close> on.\<close>

function Complete_loop ::
  "readInfo list \<Rightarrow> string \<Rightarrow> go_error option \<Rightarrow> time \<Rightarrow> nat \<Rightarrow> readInfo list" where
  "Complete_loop rs name err now i =
     (if i < length rs then
        (let x = rs ! i
         in if Name x = name then rs[i := x\<lparr>View := view_done (View x) now, Error := err\<rparr>]
            else Complete_loop rs name err now (i + 1))
      else rs)"
  by pat_completeness auto
termination
  by (relation "measure (\<lambda>(rs, name, err, now, i). length rs - i)") auto

definition Complete :: "Viz \<Rightarrow> string \<Rightarrow> go_error option \<Rightarrow> time \<Rightarrow> Viz" where
  "Complete v name err now = v\<lparr>readers := Complete_loop (readers v) name err now 0\<rparr>"

text \<open>The slice expression \<open>s[:hi]\<close> on a slice whose capacity equals its length.\<close>

definition slice_to :: "'a list \<Rightarrow> int \<Rightarrow> panic + 'a list" where
  "slice_to s hi = (if 0 \<le> hi \<and> hi \<le> int (length s) then Inr (take (nat hi) s)
                    else Inl SliceBoundsOutOfRange)"

text \<open>
  The loop of \<open>Remove\<close>, from index \<open>i\<close> on. In the branch that is not the last element,
  \<open>append(readers[:i], readers[i+1:]...)\<close> moves the tail down by one inside the same
  backing array.
\<close>

function Remove_loop :: "readInfo list \<Rightarrow> string \<Rightarrow> nat \<Rightarrow> panic + readInfo list" where
  "Remove_loop rs name i =
     (if i < length rs then
        (if Name (rs ! i) = name then
           (if int i = int (length rs) - 1 then slice_to rs (int i - 1)
            else Inr (take i rs @ drop (i + 1) rs))
         else Remove_loop rs name (i + 1))
      else Inr rs)"
  by pat_completeness auto
termination
  by (relation "measure (\<lambda>(rs, name, i). length rs - i)") auto

definition Remove :: "Viz \<Rightarrow> string \<Rightarrow> panic + Viz" where
  "Remove v name = (case Remove_loop (readers v) name 0 of
                      Inl p \<Rightarrow> Inl p
                    | Inr rs \<Rightarrow> Inr (v\<lparr>readers := rs\<rparr>))"

section \<open>Sample values\<close>

definition ex_spinner :: spinner where
  "ex_spinner = \<lparr>sp_w = 0, sp_start = 0, sp_elapsed = 0\<rparr>"

definition ex_entry :: "string \<Rightarrow> readInfo" where
  "ex_entry n = \<lparr>Name = n, View = Spinner ex_spinner, Error = None\<rparr>"

definition ex_Viz :: "readInfo list \<Rightarrow> Viz" where
  "ex_Viz rs = \<lparr>readers = rs, interval = Second, started = 0\<rparr>"

text \<open>A file wrapper as \<open>wrapFile\<close> builds it in the first second over a file of 1000 bytes.\<close>

definition ex_fileWrapper :: fileWrapper where
  "ex_fileWrapper = \<lparr>fw_sz = Finite 10, fw_f = 3, fw_start = 0, fw_elapsed = 0\<rparr>"

definition ex_times :: "time list" where
  "ex_times = [0, 1000000000, 2000000000, 3000000000, 4000000000]"

section \<open>Sequences of status queries\<close>

text \<open>Successive calls of \<open>readStatus\<close> on one spinner, at the instants \<open>ts\<close>.\<close>

fun spinner_run :: "spinner \<Rightarrow> time list \<Rightarrow> panic + status list \<times> spinner" where
  "spinner_run s [] = Inr ([], s)"
| "spinner_run s (t # ts) =
     (case spinner_readStatus s t of
        Inl p \<Rightarrow> Inl p
      | Inr (st, s') \<Rightarrow>
          (case spinner_run s' ts of
             Inl p \<Rightarrow> Inl p
           | Inr (sts, s'') \<Rightarrow> Inr (st # sts, s'')))"

text \<open>The wheel symbol a status line shows, if any.\<close>

fun symbol :: "status \<Rightarrow> char option" where
  "symbol (Wheel_line d c) = Some c"
| "symbol (Percent_line d x) = None"

section \<open>Registry states between Start and Stop\<close>

text \<open>The variant of a view, and the range of the wheel index of a spinner.\<close>

fun is_spinner :: "view \<Rightarrow> bool" where
  "is_spinner (Spinner s) = True"
| "is_spinner (FileWrapper w) = False"

fun view_ok :: "view \<Rightarrow> bool" where
  "view_ok (Spinner s) = (0 \<le> sp_w s \<and> sp_w s < 4)"
| "view_ok (FileWrapper w) = True"

text \<open>Two entries that differ at most in the state of a view of the same variant.\<close>

definition entry_rel :: "readInfo \<Rightarrow> readInfo \<Rightarrow> bool" where
  "entry_rel r r' = (Name r' = Name r \<and> Error r' = Error r \<and>
                     is_spinner (View r') = is_spinner (View r))"

text \<open>
  The registries a program can reach: \<open>Start\<close> on the zero value, then calls of
  \<open>Add\<close>, \<open>Complete\<close> and \<open>Remove\<close> and ticks of the redraw loop that return.
\<close>

inductive reachable :: "Viz \<Rightarrow> bool" where
  start: "reachable (Start zero_Viz d now)"
| add: "reachable v \<Longrightarrow> Add v name rdr wd = Inr v' \<Longrightarrow> reachable v'"
| complete: "reachable v \<Longrightarrow> reachable (Complete v name err now)"
| remove: "reachable v \<Longrightarrow> Remove v name = Inr v' \<Longrightarrow> reachable v'"
| tick: "reachable v \<Longrightarrow> redrawLocked v wd = Inr v' \<Longrightarrow> reachable v'"

text \<open>
  An \<open>Add\<close> at 0.2 s of a file of 1000 bytes on a terminal of 24 rows, whose row is
  drawn at 0.25 s with the file at position 0.
\<close>

definition ex_world :: world where
  "ex_world = \<lparr>w_now = 200000000, w_stat = Inr 1000, w_height = 24,
               w_probe = (\<lambda>ri. (250000000, Inr 0))\<rparr>"

text \<open>A file wrapper as \<open>wrapFile\<close> builds it in the first second over an empty file.\<close>

definition ex_empty_fileWrapper :: fileWrapper where
  "ex_empty_fileWrapper = \<lparr>fw_sz = Finite 0, fw_f = 3, fw_start = 0, fw_elapsed = 0\<rparr>"

section \<open>The bounded dispatcher (BoundedExec)\<close>

text \<open>
  \<open>BoundedExec\<close> runs one main goroutine and the worker goroutines it starts; they
  meet at the channel \<open>boundedChan\<close> and at the wait group \<open>wg\<close>. The model is the
  interleaving of their steps on one shared state.

  A worker is at its receive \<open>name, ok := <-boundedChan\<close>, or inside the call
  \<open>nameFunc(name)\<close>, or has returned (and run its deferred \<open>wg.Done()\<close>).
\<close>

datatype goroutine = Receiving | Running string | Exited

text \<open>
  The main goroutine is in the spawn loop with counter \<open>i\<close>, or in the send loop with
  the names still to send, or in \<open>wg.Wait()\<close>, or has returned from \<open>BoundedExec\<close>.
\<close>

datatype main_pc = Spawning int | Sending "string list" | Waiting | Returned

text \<open>
  \<open>e_cap\<close>, \<open>e_buf\<close> and \<open>e_closed\<close> are the capacity, the queued names and the closed
  flag of \<open>boundedChan\<close>; \<open>e_wg\<close> is the counter of the wait group. \<open>e_invoked\<close> and
  \<open>e_completed\<close> record, in order, the calls of \<open>nameFunc\<close> begun and returned.
\<close>

record exec =
  e_cap :: nat
  e_buf :: "string list"
  e_closed :: bool
  e_wg :: int
  e_workers :: "goroutine list"
  e_main :: main_pc
  e_invoked :: "string list"
  e_completed :: "string list"

text \<open>
  The state after \<open>make(chan string, n)\<close>. The runtime panics with "makechan: size
  out of range" for a negative \<open>n\<close>, and for a buffer whose size in bytes, \<open>16 * n\<close> for
  strings on a 64-bit platform, overflows a machine word or exceeds \<open>maxbuf\<close>. Here
  \<open>maxbuf\<close> is the largest buffer the runtime accepts, its constant
  \<open>maxAlloc - hchanSize\<close>, which depends on the platform. Memory that runs out
  below this limit is not modelled.
\<close>

definition BoundedExec_init :: "nat \<Rightarrow> int \<Rightarrow> panic + exec" where
  "BoundedExec_init maxbuf n =
     (if n < 0 \<or> 2 ^ 64 \<le> 16 * n \<or> int maxbuf < 16 * n then Inl MakechanSizeOutOfRange
      else Inr \<lparr>e_cap = nat n, e_buf = [], e_closed = False, e_wg = 0, e_workers = [],
                e_main = Spawning 0, e_invoked = [], e_completed = []\<rparr>)"

text \<open>
  The steps of worker \<open>k\<close>. A receive takes the head of the queue and enters
  \<open>nameFunc\<close>; on a closed and drained channel it gets \<open>ok = false\<close> and the worker
  returns; on an open empty channel it blocks. A return of \<open>nameFunc\<close> leads back to
  the receive.
\<close>

definition worker_steps :: "exec \<Rightarrow> nat \<Rightarrow> exec list" where
  "worker_steps s k =
     (case e_workers s ! k of
        Receiving \<Rightarrow>
          (case e_buf s of
             x # rest \<Rightarrow>
               [s\<lparr>e_buf := rest, e_workers := (e_workers s)[k := Running x],
                  e_invoked := e_invoked s @ [x]\<rparr>]
           | [] \<Rightarrow>
               (if e_closed s
                then [s\<lparr>e_workers := (e_workers s)[k := Exited], e_wg := e_wg s - 1\<rparr>]
                else []))
      | Running x \<Rightarrow>
          [s\<lparr>e_workers := (e_workers s)[k := Receiving], e_completed := e_completed s @ [x]\<rparr>]
      | Exited \<Rightarrow> [])"

text \<open>
  A send on an unbuffered channel completes only by handing the value to a worker
  that waits at its receive.
\<close>

definition handoffs :: "exec \<Rightarrow> string \<Rightarrow> string list \<Rightarrow> exec list" where
  "handoffs s x xs =
     map (\<lambda>k. s\<lparr>e_workers := (e_workers s)[k := Running x], e_main := Sending xs,
                 e_invoked := e_invoked s @ [x]\<rparr>)
       (filter (\<lambda>k. e_workers s ! k = Receiving) [0..<length (e_workers s)])"

text \<open>
  The steps of the main goroutine: \<open>wg.Add(1)\<close> and \<open>go\<close> while \<open>i < n\<close>; then a send
  per name, which blocks while the queue is full; then \<open>close\<close>; then \<open>wg.Wait()\<close>,
  which blocks while the counter is not zero.
\<close>

definition main_steps :: "int \<Rightarrow> string list \<Rightarrow> exec \<Rightarrow> exec list" where
  "main_steps n names s =
     (case e_main s of
        Spawning i \<Rightarrow>
          (if i < n
           then [s\<lparr>e_wg := e_wg s + 1, e_workers := e_workers s @ [Receiving],
                   e_main := Spawning (i + 1)\<rparr>]
           else [s\<lparr>e_main := Sending names\<rparr>])
      | Sending [] \<Rightarrow> [s\<lparr>e_closed := True, e_main := Waiting\<rparr>]
      | Sending (x # xs) \<Rightarrow>
          (if e_cap s = 0 then handoffs s x xs
           else if length (e_buf s) < e_cap s
                then [s\<lparr>e_buf := e_buf s @ [x], e_main := Sending xs\<rparr>]
                else [])
      | Waiting \<Rightarrow> (if e_wg s = 0 then [s\<lparr>e_main := Returned\<rparr>] else [])
      | Returned \<Rightarrow> [])"

text \<open>All states one step of some goroutine away.\<close>

definition successors :: "int \<Rightarrow> string list \<Rightarrow> exec \<Rightarrow> exec list" where
  "successors n names s =
     main_steps n names s @ concat (map (worker_steps s) [0..<length (e_workers s)])"

inductive reach :: "nat \<Rightarrow> int \<Rightarrow> string list \<Rightarrow> exec \<Rightarrow> bool" for maxbuf n names where
  init: "BoundedExec_init maxbuf n = Inr s \<Longrightarrow> reach maxbuf n names s"
| step: "reach maxbuf n names s \<Longrightarrow> s' \<in> set (successors n names s) \<Longrightarrow> reach maxbuf n names s'"






text \<open>The limit \<open>maxAlloc - hchanSize\<close> of the runtime on linux/amd64.\<close>

definition ex_lim :: nat where
  "ex_lim = 2 ^ 48 - 96"

text \<open>A state with an unbuffered, open channel, no worker and no call made.\<close>

definition idle_exec :: "main_pc \<Rightarrow> exec" where
  "idle_exec pc = \<lparr>e_cap = 0, e_buf = [], e_closed = False, e_wg = 0, e_workers = [],
                  e_main = pc, e_invoked = [], e_completed = []\<rparr>"



section \<open>Rounding to \<open>float64\<close>\<close>

lemma pow2_powi: "pow2 k = 2 powi k"
  by (simp add: pow2_def power_int_def inverse_eq_divide power_one_over)

lemma pow2_pos: "0 < pow2 k"
  by (simp add: pow2_powi)

lemma pow2_add: "pow2 (a + b) = pow2 a * pow2 b"
  by (simp add: pow2_powi power_int_add)

lemma pow2_diff: "pow2 (a - b) = pow2 a / pow2 b"
  by (simp add: pow2_powi power_int_diff)

lemma pow2_mono: "a \<le> b \<Longrightarrow> pow2 a \<le> pow2 b"
  by (simp add: pow2_powi power_int_increasing)

lemma pow2_strict_mono: "a < b \<Longrightarrow> pow2 a < pow2 b"
  by (simp add: pow2_powi power_int_strict_increasing)

lemma pow2_nat: "pow2 (int n) = 2 ^ n"
  by (simp add: pow2_def)

lemma pow2_1: "pow2 1 = 2"
  by (simp add: pow2_def)

lemma pow2_Suc: "pow2 (k + 1) = 2 * pow2 k"
  by (simp add: pow2_add pow2_1)

lemma bitlen_pow2_bounds:
  assumes "0 < a"
  shows "pow2 (bitlen a - 1) \<le> of_int a" "(of_int a :: rat) < pow2 (bitlen a)"
proof -
  have b: "2 ^ nat (bitlen a - 1) \<le> a" "a < 2 ^ nat (bitlen a)"
    using bitlen_bounds[OF assms] by simp_all
  have ge: "1 \<le> bitlen a" using assms by (simp add: bitlen_alt_def)
  have "pow2 (bitlen a - 1) = 2 ^ nat (bitlen a - 1)" using ge by (simp add: pow2_def)
  also have "\<dots> = of_int (2 ^ nat (bitlen a - 1))" by simp
  also have "\<dots> \<le> of_int a" using b(1) by (simp only: of_int_le_iff)
  finally show "pow2 (bitlen a - 1) \<le> of_int a" .
  have "(of_int a :: rat) < of_int (2 ^ nat (bitlen a))" using b(2) by (simp only: of_int_less_iff)
  also have "\<dots> = pow2 (bitlen a)" using ge by (simp add: pow2_def)
  finally show "(of_int a :: rat) < pow2 (bitlen a)" .
qed

lemma ilog2_bounds:
  assumes "0 < x"
  shows "pow2 (ilog2 x) \<le> x" "x < pow2 (ilog2 x + 1)"
proof -
  obtain a b where q: "quotient_of x = (a, b)" by (cases "quotient_of x")
  have bpos: "0 < b" using q by (rule quotient_of_denom_pos)
  have xab: "x = of_int a / of_int b" using q by (rule quotient_of_div)
  have apos: "0 < a" using assms bpos xab by (simp add: zero_less_divide_iff)
  define k where "k = bitlen a - bitlen b"
  have bp: "0 < (of_int b :: rat)" using bpos by simp
  have lo: "pow2 (k - 1) < x"
  proof -
    have "pow2 (k - 1) * of_int b < pow2 (k - 1) * pow2 (bitlen b)"
      using bitlen_pow2_bounds(2)[OF bpos] pow2_pos[of "k - 1"] by simp
    also have "\<dots> = pow2 (bitlen a - 1)"
      by (simp add: k_def pow2_add[symmetric])
    also have "\<dots> \<le> of_int a" using bitlen_pow2_bounds(1)[OF apos] .
    finally show ?thesis using bp by (simp add: xab pos_less_divide_eq)
  qed
  have hi: "x < pow2 (k + 1)"
  proof -
    have "of_int a < pow2 (bitlen a)" using bitlen_pow2_bounds(2)[OF apos] .
    also have "\<dots> = pow2 (k + 1) * pow2 (bitlen b - 1)"
      by (simp add: k_def pow2_add[symmetric])
    also have "\<dots> \<le> pow2 (k + 1) * of_int b"
      using bitlen_pow2_bounds(1)[OF bpos] pow2_pos[of "k + 1"] by simp
    finally show ?thesis using bp by (simp add: xab pos_divide_less_eq)
  qed
  have il: "ilog2 x = (if pow2 k \<le> x then k else k - 1)"
    by (simp add: ilog2_def q k_def Let_def)
  show "pow2 (ilog2 x) \<le> x" using lo by (simp add: il)
  show "x < pow2 (ilog2 x + 1)" using hi by (simp add: il)
qed

lemma ilog2_unique:
  assumes "pow2 e \<le> x" "x < pow2 (e + 1)"
  shows "ilog2 x = e"
proof -
  have xpos: "0 < x" using assms(1) pow2_pos[of e] by simp
  note b = ilog2_bounds[OF xpos]
  have "pow2 e < pow2 (ilog2 x + 1)" using assms(1) b(2) by simp
  then have "e < ilog2 x + 1" using pow2_mono[of "ilog2 x + 1" e] by (cases "e < ilog2 x + 1") auto
  moreover have "pow2 (ilog2 x) < pow2 (e + 1)" using assms(2) b(1) by simp
  then have "ilog2 x < e + 1" using pow2_mono[of "e + 1" "ilog2 x"] by (cases "ilog2 x < e + 1") auto
  ultimately show ?thesis by simp
qed

lemma round_half_even_of_int: "round_half_even (of_int n) = n"
  by (simp add: round_half_even_def)

lemma round_half_even_error: "\<bar>of_int (round_half_even x) - x\<bar> \<le> 1 / 2"
proof -
  have f: "of_int \<lfloor>x\<rfloor> \<le> x" "x < of_int \<lfloor>x\<rfloor> + 1" by linarith+
  show ?thesis
    unfolding round_half_even_def Let_def using f
    by (auto simp: abs_le_iff)
qed

lemma round_float64_rel:
  assumes lo: "pow2 (- 1022) \<le> \<bar>x\<bar>" and hi: "\<bar>x\<bar> < pow2 1023"
  shows "\<exists>y. round_float64 x = Finite y \<and> \<bar>y - x\<bar> \<le> \<bar>x\<bar> * pow2 (- 53)"
proof -
  have xpos: "0 < \<bar>x\<bar>" using lo pow2_pos[of "- 1022"] by linarith
  then have xne: "x \<noteq> 0" by simp
  define e where "e = ilog2 \<bar>x\<bar>"
  have eb: "pow2 e \<le> \<bar>x\<bar>" "\<bar>x\<bar> < pow2 (e + 1)"
    using ilog2_bounds[OF xpos] by (simp_all add: e_def)
  have ege: "- 1022 \<le> e"
  proof (rule ccontr)
    assume "\<not> - 1022 \<le> e"
    then have "e + 1 \<le> - 1022" by simp
    then have "pow2 (e + 1) \<le> pow2 (- 1022)" by (rule pow2_mono)
    then show False using eb(2) lo by linarith
  qed
  then have me: "max e (- 1022) = e" by simp
  define q where "q = pow2 (e - 52)"
  have qpos: "0 < q" by (simp add: q_def pow2_pos)
  define y where "y = of_int (round_half_even (x / q)) * q"
  have "\<bar>y - x\<bar> = \<bar>of_int (round_half_even (x / q)) - x / q\<bar> * q"
  proof -
    have "y - x = (of_int (round_half_even (x / q)) - x / q) * q"
      using qpos by (simp add: y_def left_diff_distrib)
    then show ?thesis using qpos by (simp add: abs_mult)
  qed
  also have "\<dots> \<le> (1 / 2) * q"
    using round_half_even_error[of "x / q"] qpos by (intro mult_right_mono) simp_all
  also have "(1 / 2) * q = pow2 e * pow2 (- 53)"
  proof -
    have "e - 52 = 1 + (e + (- 53))" by simp
    then have "q = pow2 (1 + (e + (- 53)))" by (simp only: q_def)
    also have "\<dots> = 2 * (pow2 e * pow2 (- 53))" by (simp only: pow2_add pow2_1)
    finally show ?thesis by simp
  qed
  also have "\<dots> \<le> \<bar>x\<bar> * pow2 (- 53)"
    using eb(1) pow2_pos[of "- 53"] by (intro mult_right_mono) simp_all
  finally have err: "\<bar>y - x\<bar> \<le> \<bar>x\<bar> * pow2 (- 53)" .
  have "\<bar>y\<bar> \<le> \<bar>x\<bar> + \<bar>y - x\<bar>" by linarith
  also have "\<dots> \<le> \<bar>x\<bar> + \<bar>x\<bar> * pow2 (- 53)" using err by simp
  also have "\<dots> \<le> \<bar>x\<bar> + \<bar>x\<bar> * 1"
  proof -
    have "pow2 (- 53) \<le> pow2 0" by (rule pow2_mono) simp
    then have "pow2 (- 53) \<le> 1" by (simp add: pow2_def)
    then have "\<bar>x\<bar> * pow2 (- 53) \<le> \<bar>x\<bar> * 1" by (intro mult_left_mono) simp_all
    then show ?thesis by simp
  qed
  also have "\<dots> = 2 * \<bar>x\<bar>" by simp
  also have "\<dots> < 2 * pow2 1023" using hi by simp
  also have "\<dots> = pow2 1024" using pow2_Suc[of 1023] by simp
  finally have fin: "\<not> pow2 1024 \<le> \<bar>y\<bar>" by simp
  have "round_float64 x = Finite y"
    using xne fin unfolding round_float64_def Let_def e_def[symmetric] me q_def[symmetric] y_def[symmetric]
    by simp
  then show ?thesis using err by blast
qed

lemma round_float64_of_int:
  assumes "\<bar>n\<bar> < 2 ^ 53"
  shows "round_float64 (of_int n) = Finite (of_int n)"
proof (cases "n = 0")
  case True
  then show ?thesis by (simp add: round_float64_def)
next
  case False
  define x :: rat where "x = of_int n"
  have xne: "x \<noteq> 0" using False by (simp add: x_def)
  have xpos: "0 < \<bar>x\<bar>" using xne by simp
  have x1: "1 \<le> \<bar>x\<bar>"
  proof -
    have "1 \<le> \<bar>n\<bar>" using False by simp
    then have "(of_int 1 :: rat) \<le> of_int \<bar>n\<bar>" by (simp only: of_int_le_iff)
    then show ?thesis by (simp add: x_def)
  qed
  have x2: "\<bar>x\<bar> < pow2 53"
  proof -
    have "(of_int \<bar>n\<bar> :: rat) < of_int (2 ^ 53)" using assms by (simp only: of_int_less_iff)
    then show ?thesis by (simp add: x_def pow2_def)
  qed
  define e where "e = ilog2 \<bar>x\<bar>"
  have eb: "pow2 e \<le> \<bar>x\<bar>" "\<bar>x\<bar> < pow2 (e + 1)"
    using ilog2_bounds[OF xpos] by (simp_all add: e_def)
  have e0: "0 \<le> e"
  proof (rule ccontr)
    assume "\<not> 0 \<le> e"
    then have "e + 1 \<le> 0" by simp
    then have "pow2 (e + 1) \<le> pow2 0" by (rule pow2_mono)
    then show False using eb(2) x1 by (simp add: pow2_def)
  qed
  have e52: "e \<le> 52"
  proof (rule ccontr)
    assume "\<not> e \<le> 52"
    then have "53 \<le> e" by simp
    then have "pow2 53 \<le> pow2 e" by (rule pow2_mono)
    then show False using eb(1) x2 by linarith
  qed
  have me: "max e (- 1022) = e" using e0 by simp
  define q where "q = pow2 (e - 52)"
  have qpos: "0 < q" by (simp add: q_def pow2_pos)
  have qinv: "1 / q = of_int (2 ^ nat (52 - e))"
  proof -
    have "pow2 (e - 52) * pow2 (52 - e) = 1" by (simp add: pow2_add[symmetric] pow2_def)
    moreover have "pow2 (52 - e) = 2 ^ nat (52 - e)" using e52 by (simp add: pow2_def)
    ultimately show ?thesis using qpos by (simp add: q_def field_simps)
  qed
  have "x / q = x * (1 / q)" by simp
  also have "\<dots> = of_int (n * 2 ^ nat (52 - e))" by (simp only: qinv x_def of_int_mult)
  finally have xq: "x / q = of_int (n * 2 ^ nat (52 - e))" .
  have r: "of_int (round_half_even (x / q)) * q = x"
  proof -
    have "of_int (round_half_even (x / q)) * q = (x / q) * q"
      by (simp only: xq round_half_even_of_int)
    then show ?thesis using qpos by simp
  qed
  have fin: "\<not> pow2 1024 \<le> \<bar>x\<bar>"
  proof -
    have "pow2 53 \<le> pow2 1024" by (rule pow2_mono) simp
    then show ?thesis using x2 by linarith
  qed
  have "round_float64 x = Finite x"
    using xne fin unfolding round_float64_def Let_def e_def[symmetric] me q_def[symmetric] r
    by simp
  then show ?thesis by (simp add: x_def)
qed

lemma float64_of_int_small: "\<bar>n\<bar> < 2 ^ 53 \<Longrightarrow> float64_of_int n = Finite (of_int n)"
  by (simp add: float64_of_int_def round_float64_of_int)


section \<open>Remove\<close>

declare Remove_loop.simps [simp del]

lemma Remove_loop_no_match:
  "(\<And>j. i \<le> j \<Longrightarrow> j < length rs \<Longrightarrow> Name (rs ! j) \<noteq> name) \<Longrightarrow>
   Remove_loop rs name i = Inr rs"
proof (induction rs name i rule: Remove_loop.induct)
  case (1 rs name i)
  show ?case
  proof (cases "i < length rs")
    case True
    then have ne: "Name (rs ! i) \<noteq> name" using "1.prems" by simp
    have "Remove_loop rs name (i + 1) = Inr rs"
      using "1.IH" True ne "1.prems" by simp
    then show ?thesis using True ne by (subst Remove_loop.simps) simp
  next
    case False
    then show ?thesis by (subst Remove_loop.simps) simp
  qed
qed

text \<open>
  What the loop does when index \<open>k\<close> holds the first entry called \<open>name\<close>: the last
  entry goes through \<open>readers[:k-1]\<close>, any other one is cut out in place.
\<close>

lemma Remove_loop_first_match:
  "i \<le> k \<Longrightarrow> k < length rs \<Longrightarrow> Name (rs ! k) = name \<Longrightarrow>
   (\<And>j. i \<le> j \<Longrightarrow> j < k \<Longrightarrow> Name (rs ! j) \<noteq> name) \<Longrightarrow>
   Remove_loop rs name i =
     (if k + 1 = length rs then slice_to rs (int k - 1) else Inr (take k rs @ drop (k + 1) rs))"
proof (induction rs name i rule: Remove_loop.induct)
  case (1 rs name i)
  show ?case
  proof (cases "i = k")
    case True
    then show ?thesis using "1.prems" by (subst Remove_loop.simps) auto
  next
    case False
    then have lt: "i < k" using "1.prems" by simp
    then have ne: "Name (rs ! i) \<noteq> name" using "1.prems" by simp
    have il: "i < length rs" using lt "1.prems" by simp
    have "Remove_loop rs name (i + 1) =
     (if k + 1 = length rs then slice_to rs (int k - 1) else Inr (take k rs @ drop (k + 1) rs))"
      using "1.IH" il ne lt "1.prems" by simp
    then show ?thesis using il ne by (subst Remove_loop.simps) simp
  qed
qed

text \<open>
  C1. The claim: \<open>Remove(name)\<close> deletes exactly the first entry called \<open>name\<close> and
  keeps the others in order, also when that entry is the last one. The code at the
  registry \<open>[a, b]\<close>: \<open>Remove("b")\<close> finds the match at the last index \<open>i = 1\<close> and
  keeps \<open>readers[:i-1]\<close>, which is empty, so the entry \<open>a\<close> is deleted too.
\<close>

theorem Remove_last_of_two_deletes_both:
  "Remove (ex_Viz [ex_entry ''a'', ex_entry ''b'']) ''b'' = Inr (ex_Viz [])"
  by (simp add: Remove_def Remove_loop.simps slice_to_def ex_entry_def ex_Viz_def)

text \<open>
  C2. On a registry of exactly one entry, \<open>Remove\<close> with the name of that entry
  reaches the branch of the last element at index \<open>0\<close>, evaluates \<open>readers[:0-1]\<close>
  and panics on the negative bound; no empty registry is returned.
\<close>

theorem Remove_single_entry_panics:
  "readers v = [r] \<Longrightarrow>
     Remove_loop (readers v) (Name r) 0 = slice_to (readers v) (int 0 - 1) \<and>
     slice_to (readers v) (int 0 - 1) = Inl SliceBoundsOutOfRange \<and>
     Remove v (Name r) = Inl SliceBoundsOutOfRange"
  by (simp add: Remove_def slice_to_def Remove_loop.simps)

theorem Remove_single_entry_panics_witness:
  "readers (ex_Viz [ex_entry ''a'']) = [ex_entry ''a''] \<and>
   Remove (ex_Viz [ex_entry ''a'']) ''a'' = Inl SliceBoundsOutOfRange"
  using Remove_single_entry_panics [of "ex_Viz [ex_entry ''a'']" "ex_entry ''a''"]
  by (simp add: ex_Viz_def ex_entry_def)


section \<open>Spinner and file wrapper\<close>

lemma Sub_eq_0_iff: "Sub t u = 0 \<longleftrightarrow> t = u"
  by (simp add: Sub_def minDuration_def maxDuration_def)

lemma spinner_done_nonzero: "sp_elapsed (spinner_done s now) \<noteq> 0"
  by (simp add: spinner_done_def Let_def Second_def)

lemma fileWrapper_done_zero_iff:
  "fw_elapsed (fileWrapper_done w now) = 0 \<longleftrightarrow> Truncate now Second = fw_start w"
  by (simp add: fileWrapper_done_def Sub_eq_0_iff)

lemma wrap64_id: "- (2 ^ 63) \<le> x \<Longrightarrow> x < 2 ^ 63 \<Longrightarrow> wrap64 x = x"
proof -
  assume a: "- (2 ^ 63) \<le> x" "x < 2 ^ 63"
  have "0 \<le> x + 2 ^ 63" using a by linarith
  moreover have "x + 2 ^ 63 < (2::int) ^ 64" using a by simp
  ultimately have "(x + 2 ^ 63) mod 2 ^ 64 = x + 2 ^ 63" by (rule mod_pos_pos_trivial)
  then show ?thesis by (simp add: wrap64_def)
qed

lemma go_rem_4: "0 \<le> a \<Longrightarrow> go_rem a (int (length Wheel)) = a mod 4"
  by (simp add: go_rem_def Wheel_def)

lemma Wheel_at_mod: "Wheel_at (a mod 4) = Inr (Wheel ! nat (a mod 4))"
  by (simp add: Wheel_at_def Wheel_def)

lemma spinner_step:
  assumes "0 \<le> sp_w s" "sp_w s < 4" "sp_elapsed s = 0"
  shows "spinner_readStatus s now =
    Inr (Wheel_line (Sub (Truncate now Second) (sp_start s)) (Wheel ! nat ((sp_w s + 1) mod 4)),
         s\<lparr>sp_w := (sp_w s + 1) mod 4\<rparr>)"
proof -
  have w: "wrap64 (sp_w s + 1) = sp_w s + 1"
    using assms by (intro wrap64_id) simp_all
  have r: "go_rem (sp_w s + 1) (int (length Wheel)) = (sp_w s + 1) mod 4"
    using assms by (intro go_rem_4) simp
  show ?thesis using assms(3) unfolding spinner_readStatus_def w r
    by (simp add: Wheel_at_mod)
qed

lemma mod4_shift_iff:
  "(x + 1 + int i) mod 4 = (x + 1 + int j) mod 4 \<longleftrightarrow> i mod 4 = j mod 4"
proof -
  have "(x + 1 + int i) mod 4 = (x + 1 + int j) mod 4 \<longleftrightarrow> 4 dvd (x + 1 + int i) - (x + 1 + int j)"
    by (rule mod_eq_dvd_iff)
  also have "(x + 1 + int i) - (x + 1 + int j) = int i - int j" by simp
  also have "4 dvd int i - int j \<longleftrightarrow> int i mod 4 = int j mod 4"
    by (rule mod_eq_dvd_iff [symmetric])
  also have "\<dots> \<longleftrightarrow> int (i mod 4) = int (j mod 4)"
    by (simp add: zmod_int)
  also have "\<dots> \<longleftrightarrow> i mod 4 = j mod 4"
    by (rule of_nat_eq_iff)
  finally show ?thesis .
qed

lemma mod4_step_w: "x' = (((x::int) + 1) mod 4 + int n) mod 4 \<Longrightarrow> x' = (x + int (Suc n)) mod 4"
  by presburger
lemma mod4_step_symbol: "k = Suc j \<Longrightarrow> ((x + 1) mod 4 + 1 + int j) mod 4 = ((x::int) + 1 + int k) mod 4"
  by simp presburger

lemma spinner_run_cycle:
  assumes "0 \<le> sp_w s" "sp_w s < 4" "sp_elapsed s = 0"
  shows "\<exists>sts s'. spinner_run s ts = Inr (sts, s') \<and> length sts = length ts \<and>
           sp_w s' = (sp_w s + int (length ts)) mod 4 \<and> sp_elapsed s' = 0 \<and>
           (\<forall>k < length ts. symbol (sts ! k) = Some (Wheel ! nat ((sp_w s + 1 + int k) mod 4)))"
  using assms
proof (induction ts arbitrary: s)
  case Nil
  then show ?case by simp
next
  case (Cons t ts)
  let ?s1 = "s\<lparr>sp_w := (sp_w s + 1) mod 4\<rparr>"
  have st: "spinner_readStatus s t =
    Inr (Wheel_line (Sub (Truncate t Second) (sp_start s)) (Wheel ! nat ((sp_w s + 1) mod 4)), ?s1)"
    using Cons.prems by (rule spinner_step)
  have "0 \<le> sp_w ?s1" "sp_w ?s1 < 4" "sp_elapsed ?s1 = 0" using Cons.prems by simp_all
  from Cons.IH[OF this] obtain sts s' where
    run: "spinner_run ?s1 ts = Inr (sts, s')" and len: "length sts = length ts"
    and w': "sp_w s' = (sp_w ?s1 + int (length ts)) mod 4" and e': "sp_elapsed s' = 0"
    and sym: "\<forall>k < length ts. symbol (sts ! k) = Some (Wheel ! nat ((sp_w ?s1 + 1 + int k) mod 4))"
    by blast
  have w2: "sp_w s' = (sp_w s + int (length (t # ts))) mod 4"
    using w' mod4_step_w [of "sp_w s'" "sp_w s" "length ts"] by simp
  have sym2: "symbol ((Wheel_line (Sub (Truncate t Second) (sp_start s)) (Wheel ! nat ((sp_w s + 1) mod 4)) # sts) ! k)
       = Some (Wheel ! nat ((sp_w s + 1 + int k) mod 4))" if "k < length (t # ts)" for k
  proof (cases k)
    case 0
    then show ?thesis by simp
  next
    case (Suc j)
    then have "j < length ts" using that by simp
    with sym have "symbol (sts ! j) = Some (Wheel ! nat ((sp_w ?s1 + 1 + int j) mod 4))" by blast
    moreover have "(sp_w ?s1 + 1 + int j) mod 4 = (sp_w s + 1 + int k) mod 4"
      using Suc by (simp add: mod4_step_symbol)
    ultimately show ?thesis using Suc by simp
  qed
  show ?case using st run len w2 e' sym2 by simp
qed

lemma Wheel_index_eq_iff:
  "0 \<le> a \<Longrightarrow> a < 4 \<Longrightarrow> 0 \<le> b \<Longrightarrow> b < 4 \<Longrightarrow> Wheel ! nat a = Wheel ! nat b \<longleftrightarrow> a = b"
proof -
  assume h: "0 \<le> a" "a < 4" "0 \<le> b" "b < 4"
  have d: "distinct Wheel" by (simp add: Wheel_def)
  have "nat a < length Wheel" "nat b < length Wheel" using h by (simp_all add: Wheel_def)
  then have "Wheel ! nat a = Wheel ! nat b \<longleftrightarrow> nat a = nat b"
    using d by (simp add: nth_eq_iff_index_eq)
  then show ?thesis using h by auto
qed

text \<open>
  C7. While a spinner is not done, every status query moves the index \<open>w\<close> on by one
  modulo \<open>len(Wheel) = 4\<close>. The symbols of a run of queries are those of the wheel
  in order, and two queries of the run show the same symbol exactly when their
  positions agree modulo 4: four distinct symbols, period exactly 4.
\<close>

theorem spinner_cycles_with_period_4:
  assumes "0 \<le> sp_w s" "sp_w s < 4" "sp_elapsed s = 0"
  shows "length Wheel = 4 \<and> distinct Wheel \<and>
         (\<exists>sts s'. spinner_run s ts = Inr (sts, s') \<and> length sts = length ts \<and>
           sp_w s' = (sp_w s + int (length ts)) mod int (length Wheel) \<and> sp_elapsed s' = 0 \<and>
           (\<forall>k < length ts. symbol (sts ! k) = Some (Wheel ! nat ((sp_w s + 1 + int k) mod 4))) \<and>
           (\<forall>i < length ts. \<forall>j < length ts.
              symbol (sts ! i) = symbol (sts ! j) \<longleftrightarrow> i mod 4 = j mod 4))"
proof -
  from spinner_run_cycle[OF assms, of ts] obtain sts s' where
    run: "spinner_run s ts = Inr (sts, s')" and len: "length sts = length ts"
    and w': "sp_w s' = (sp_w s + int (length ts)) mod 4" and e': "sp_elapsed s' = 0"
    and sym: "\<forall>k < length ts. symbol (sts ! k) = Some (Wheel ! nat ((sp_w s + 1 + int k) mod 4))"
    by blast
  have per: "symbol (sts ! i) = symbol (sts ! j) \<longleftrightarrow> i mod 4 = j mod 4"
    if "i < length ts" "j < length ts" for i j
  proof -
    have "symbol (sts ! i) = symbol (sts ! j) \<longleftrightarrow>
          (sp_w s + 1 + int i) mod 4 = (sp_w s + 1 + int j) mod 4"
      using sym that by (simp add: Wheel_index_eq_iff)
    also have "\<dots> \<longleftrightarrow> i mod 4 = j mod 4"
      by (rule mod4_shift_iff)
    finally show ?thesis .
  qed
  show ?thesis using run len w' e' sym per by (simp add: Wheel_def)
qed


theorem spinner_cycles_with_period_4_witness:
  "0 \<le> sp_w (newSpinner 0) \<and> sp_w (newSpinner 0) < 4 \<and> sp_elapsed (newSpinner 0) = 0 \<and>
   length Wheel = 4 \<and> distinct Wheel \<and>
   (\<exists>sts s'. spinner_run (newSpinner 0) ex_times = Inr (sts, s') \<and>
      length sts = length ex_times \<and>
      sp_w s' = (sp_w (newSpinner 0) + int (length ex_times)) mod int (length Wheel) \<and>
      sp_elapsed s' = 0 \<and>
      (\<forall>k < length ex_times.
         symbol (sts ! k) = Some (Wheel ! nat ((sp_w (newSpinner 0) + 1 + int k) mod 4))) \<and>
      (\<forall>i < length ex_times. \<forall>j < length ex_times.
         symbol (sts ! i) = symbol (sts ! j) \<longleftrightarrow> i mod 4 = j mod 4))"
proof -
  have a: "0 \<le> sp_w (newSpinner 0)" and b: "sp_w (newSpinner 0) < 4"
    and c: "sp_elapsed (newSpinner 0) = 0"
    by (simp_all add: newSpinner_def)
  show ?thesis
    using a b c spinner_cycles_with_period_4 [OF a b c, of ex_times] by blast
qed

lemma Truncate_Second_examples:
  "Truncate 200000000 Second = 0" "Truncate 300000000 Second = 0"
  "Truncate 500000000 Second = 0"
  "Truncate 2000000000 Second = 2000000000"
  by (simp_all add: Truncate_def Second_def)

lemma Sub_examples: "Sub 0 0 = 0" "Sub 2000000000 0 = 2000000000"
  by (simp_all add: Sub_def minDuration_def maxDuration_def)

lemma round_float64_50: "round_float64 50 = Finite 50"
  using round_float64_of_int [of 50] by simp

lemma round_float64_10: "round_float64 10 = Finite 10"
  using round_float64_of_int [of 10] by simp

text \<open>
  C3. The claim: \<open>done\<close> of either variant records \<open>now - start\<close> and raises a zero
  to one tick, so the source is done afterwards. \<open>spinner.done\<close> does; the method
  \<open>fileWrapper.done\<close> has no such step. For a file wrapper built at 0.2 s and
  completed at 0.5 s, the truncated instants agree, \<open>elapsed\<close> stays \<open>0\<close> and the
  wrapper is unchanged, where a spinner built and completed at the same instants
  records one second.
\<close>

theorem fileWrapper_done_leaves_zero:
  "wrapFile 3 (Inr 1000) 200000000 = Inr ex_fileWrapper \<and>
   fw_elapsed (fileWrapper_done ex_fileWrapper 500000000) = 0 \<and>
   view_done (FileWrapper ex_fileWrapper) 500000000 = FileWrapper ex_fileWrapper \<and>
   sp_elapsed (spinner_done (newSpinner 200000000) 500000000) = Second"
  by (simp add: fileWrapper_done_def ex_fileWrapper_def spinner_done_def newSpinner_def
      wrapFile_def float64_of_int_small round_float64_10
      Truncate_Second_examples Sub_examples)

text \<open>
  C6. The claim: after a failed position read the wrapper is done, and every later
  query reports the frozen elapsed time and 100 percent without another read. For
  a wrapper built at 0.2 s, a read that fails at 0.3 s records
  \<open>elapsed = 0\<close>, which is the value of a wrapper that is not done: the wrapper is
  unchanged. The query at 2 s reads the position again; it reports 2 s instead of
  the 0 s of the failure when the read fails again, and 50 percent when the read
  succeeds at position 500 of 1000.
\<close>

theorem fileWrapper_failed_read_not_frozen:
  "wrapFile 3 (Inr 1000) 200000000 = Inr ex_fileWrapper \<and>
   fileWrapper_readStatus ex_fileWrapper 300000000 (Inl ''file already closed'') =
     (Percent_line 0 (Finite 100), ex_fileWrapper) \<and>
   fileWrapper_readStatus ex_fileWrapper 2000000000 (Inl ''file already closed'') =
     (Percent_line 2000000000 (Finite 100), ex_fileWrapper\<lparr>fw_elapsed := 2000000000\<rparr>) \<and>
   fileWrapper_readStatus ex_fileWrapper 2000000000 (Inr 500) =
     (Percent_line 2000000000 (Finite 50), ex_fileWrapper)"
  by (simp add: fileWrapper_readStatus_def ex_fileWrapper_def Truncate_Second_examples
      Sub_examples float64_of_int_small round_float64_50 round_float64_10 wrapFile_def)


section \<open>Add and Complete\<close>

declare redraw_rows.simps [simp del] Complete_loop.simps [simp del]

lemma readStatus_ok:
  assumes "view_ok vw"
  shows "\<exists>st vw'. readStatus vw now seek = Inr (st, vw') \<and> view_ok vw' \<and>
           is_spinner vw' = is_spinner vw"
proof (cases vw)
  case (Spinner s)
  show ?thesis
  proof (cases "sp_elapsed s = 0")
    case True
    have "spinner_readStatus s now =
      Inr (Wheel_line (Sub (Truncate now Second) (sp_start s)) (Wheel ! nat ((sp_w s + 1) mod 4)),
         s\<lparr>sp_w := (sp_w s + 1) mod 4\<rparr>)"
      using assms Spinner True by (intro spinner_step) simp_all
    then show ?thesis using Spinner by simp
  next
    case False
    then show ?thesis using Spinner assms by (simp add: spinner_readStatus_def)
  qed
next
  case (FileWrapper w)
  then show ?thesis by (simp split: prod.splits)
qed

lemma entry_rel_refl: "entry_rel r r"
  by (simp add: entry_rel_def)

lemma entry_rel_trans: "entry_rel a b \<Longrightarrow> entry_rel b c \<Longrightarrow> entry_rel a c"
  by (simp add: entry_rel_def)

lemma list_all2_entry_rel_refl: "list_all2 entry_rel rs rs"
  by (simp add: list_all2_refl entry_rel_refl)

lemma list_all2_entry_rel_trans:
  "list_all2 entry_rel as bs \<Longrightarrow> list_all2 entry_rel bs cs \<Longrightarrow> list_all2 entry_rel as cs"
  using list_all2_trans[of entry_rel entry_rel entry_rel as bs cs] entry_rel_trans by blast

lemma redraw_rows_ok:
  "list_all (\<lambda>r. view_ok (View r)) rs \<Longrightarrow> ymax - y \<le> ri \<Longrightarrow> ri \<le> int (length rs) \<Longrightarrow>
   \<exists>rs'. redraw_rows rs probe y ymax ri = Inr rs' \<and> list_all2 entry_rel rs rs' \<and>
         list_all (\<lambda>r. view_ok (View r)) rs'"
proof (induction rs probe y ymax ri rule: redraw_rows.induct)
  case (1 rs probe y ymax ri)
  show ?case
  proof (cases "y < ymax")
    case False
    then show ?thesis using "1.prems"
      by (subst redraw_rows.simps) (simp add: list_all2_entry_rel_refl)
  next
    case True
    define j where "j = nat (ri - 1)"
    have rng: "0 \<le> ri - 1" "ri - 1 < int (length rs)" using True "1.prems" by simp_all
    then have jl: "j < length rs" by (simp add: j_def)
    define r where "r = rs ! j"
    have okr: "view_ok (View r)" using "1.prems"(1) jl by (simp add: r_def list_all_length)
    from readStatus_ok[OF okr, of "fst (probe j)" "snd (probe j)"] obtain st vw where
      rd: "readStatus (View r) (fst (probe j)) (snd (probe j)) = Inr (st, vw)"
      and okv: "view_ok vw" and kind: "is_spinner vw = is_spinner (View r)" by blast
    define rs1 where "rs1 = rs[j := r\<lparr>View := vw\<rparr>]"
    have ok1: "list_all (\<lambda>r. view_ok (View r)) rs1"
      using "1.prems"(1) okv jl by (auto simp add: rs1_def list_all_length nth_list_update)
    have rel1: "list_all2 entry_rel rs rs1"
      using jl kind by (auto simp add: rs1_def list_all2_conv_all_nth nth_list_update entry_rel_def r_def)
    have "\<exists>rs'. redraw_rows rs1 probe (y + 1) ymax (ri - 1) = Inr rs' \<and> list_all2 entry_rel rs1 rs' \<and>
         list_all (\<lambda>r. view_ok (View r)) rs'"
      using "1.IH" True rng rd ok1 "1.prems"
      by (simp add: j_def r_def rs1_def)
    then obtain rs' where
      rec: "redraw_rows rs1 probe (y + 1) ymax (ri - 1) = Inr rs'"
      and rel2: "list_all2 entry_rel rs1 rs'" and ok2: "list_all (\<lambda>r. view_ok (View r)) rs'"
      by blast
    have "redraw_rows rs probe y ymax ri = Inr rs'"
      using True rng rd rec by (subst redraw_rows.simps) (simp add: j_def r_def rs1_def Let_def)
    then show ?thesis using list_all2_entry_rel_trans[OF rel1 rel2] ok2 by blast
  qed
qed


lemma redrawLocked_ok:
  assumes "list_all (\<lambda>r. view_ok (View r)) (readers v)"
  shows "\<exists>v'. redrawLocked v wd = Inr v' \<and> list_all2 entry_rel (readers v) (readers v') \<and>
           list_all (\<lambda>r. view_ok (View r)) (readers v')"
proof -
  define ymax where "ymax = (if int (length (readers v)) + 1 > w_height wd then w_height wd
                             else int (length (readers v)) + 1)"
  have "ymax - 1 \<le> int (length (readers v))" by (simp add: ymax_def)
  from redraw_rows_ok[OF assms this, of "w_probe wd"] obtain rs' where
    "redraw_rows (readers v) (w_probe wd) 1 ymax (int (length (readers v))) = Inr rs'"
    "list_all2 entry_rel (readers v) rs'" "list_all (\<lambda>r. view_ok (View r)) rs'"
    by auto
  then show ?thesis by (simp add: redrawLocked_def Let_def ymax_def)
qed

lemma Complete_loop_ok:
  "list_all (\<lambda>r. view_ok (View r)) rs \<Longrightarrow>
   list_all (\<lambda>r. view_ok (View r)) (Complete_loop rs name err now i)"
proof (induction rs name err now i rule: Complete_loop.induct)
  case (1 rs name err now i)
  show ?case
  proof (cases "i < length rs")
    case False
    then show ?thesis using "1.prems" by (subst Complete_loop.simps) simp
  next
    case True
    show ?thesis
    proof (cases "Name (rs ! i) = name")
      case False
      then show ?thesis using True "1.IH" "1.prems" by (subst Complete_loop.simps) simp
    next
      case m: True
      have "view_ok (View (rs ! i))" using "1.prems" True by (simp add: list_all_length)
      then have "view_ok (view_done (View (rs ! i)) now)"
        by (cases "View (rs ! i)") (simp_all add: spinner_done_def Let_def)
      then have "list_all (\<lambda>r. view_ok (View r))
                  (rs[i := (rs ! i)\<lparr>View := view_done (View (rs ! i)) now, Error := err\<rparr>])"
        using "1.prems" True by (auto simp add: list_all_length nth_list_update)
      then show ?thesis using True m by (subst Complete_loop.simps) (simp add: Let_def)
    qed
  qed
qed

lemma Remove_loop_subset:
  "Remove_loop rs name i = Inr rs' \<Longrightarrow> set rs' \<subseteq> set rs"
proof (induction rs name i rule: Remove_loop.induct)
  case (1 rs name i)
  show ?case
  proof (cases "i < length rs \<and> Name (rs ! i) \<noteq> name")
    case True
    then have "Remove_loop rs name (i + 1) = Inr rs'"
      using "1.prems" by (subst (asm) Remove_loop.simps) simp
    then show ?thesis using "1.IH" True by simp
  next
    case False
    then show ?thesis using "1.prems"
      by (subst (asm) Remove_loop.simps)
         (auto simp add: slice_to_def split: if_splits dest: in_set_takeD in_set_dropD)
  qed
qed

lemma reachable_ok: "reachable v \<Longrightarrow> list_all (\<lambda>r. view_ok (View r)) (readers v)"
proof (induction rule: reachable.induct)
  case (start d now)
  then show ?case by (simp add: Start_def zero_Viz_def)
next
  case (add v name rdr wd v')
  define info where "info =
        (case rdr of
           GzipReader \<Rightarrow>
             \<lparr>Name = name, View = Spinner (newSpinner (w_now wd)),
              Error = Some ''cannot inspect gzip.Reader, use wrapped Reader''\<rparr>
         | OsFile x \<Rightarrow>
             (case wrapFile x (w_stat wd) (w_now wd) of
                Inl err \<Rightarrow>
                  \<lparr>Name = name, View = Spinner (newSpinner (w_now wd)), Error = Some err\<rparr>
              | Inr fw \<Rightarrow> \<lparr>Name = name, View = FileWrapper fw, Error = None\<rparr>)
         | OtherReader \<Rightarrow>
             \<lparr>Name = name, View = Spinner (newSpinner (w_now wd)), Error = None\<rparr>)"
  have "view_ok (View info)"
    by (simp add: info_def newSpinner_def split: reader.splits sum.splits)
  then have "list_all (\<lambda>r. view_ok (View r)) (readers (v\<lparr>readers := readers v @ [info]\<rparr>))"
    using add.IH by simp
  from redrawLocked_ok[OF this, of wd] add.hyps(2) show ?case
    by (auto simp add: Add_def info_def Let_def)
next
  case (complete v name err now)
  then show ?case by (simp add: Complete_def Complete_loop_ok)
next
  case (remove v name v')
  then obtain rs' where "Remove_loop (readers v) name 0 = Inr rs'" "v' = v\<lparr>readers := rs'\<rparr>"
    by (auto simp add: Remove_def split: sum.splits)
  then show ?case using remove.IH Remove_loop_subset[of "readers v" name 0 rs']
    by (auto simp add: list_all_iff)
next
  case (tick v wd v')
  from redrawLocked_ok[OF tick.IH, of wd] tick.hyps(2) show ?case by auto
qed

lemma list_all2_snoc_last:
  assumes "list_all2 entry_rel (rs @ [info]) rs'"
  shows "length rs' = length rs + 1" "map Name rs' = map Name rs @ [Name info]"
    "map Error (butlast rs') = map Error rs"
    "map (\<lambda>r. is_spinner (View r)) (butlast rs') = map (\<lambda>r. is_spinner (View r)) rs"
    "entry_rel info (last rs')"
proof -
  from assms obtain as b where rs': "rs' = as @ [b]" and as: "list_all2 entry_rel rs as"
    and b: "entry_rel info b"
    by (auto simp add: list_all2_append1 list_all2_Cons1)
  show "length rs' = length rs + 1" using as rs' by (simp add: list_all2_lengthD)
  have n: "map Name as = map Name rs" using as
    by (induction rs as rule: list_all2_induct) (simp_all add: entry_rel_def)
  show "map Name rs' = map Name rs @ [Name info]" using n b rs' by (simp add: entry_rel_def)
  show "map Error (butlast rs') = map Error rs" using as unfolding rs'
    by (induction rs as rule: list_all2_induct) (simp_all add: entry_rel_def)
  show "map (\<lambda>r. is_spinner (View r)) (butlast rs') = map (\<lambda>r. is_spinner (View r)) rs"
    using as unfolding rs'
    by (induction rs as rule: list_all2_induct) (simp_all add: entry_rel_def)
  show "entry_rel info (last rs')" using b rs' by simp
qed

text \<open>
  C5. On every reachable registry \<open>Add\<close> returns, with exactly one more entry: the
  old entries keep their names, errors and variants, and the new last entry carries
  \<open>name\<close>. A \<open>*gzip.Reader\<close> yields a spinner with the error "cannot inspect
  gzip.Reader, use wrapped Reader"; an \<open>*os.File\<close> yields a file wrapper and no
  error when \<open>Stat\<close> succeeds, and a spinner with the error of \<open>Stat\<close> when it
  fails; any other value yields a spinner and no error.
\<close>

theorem Add_appends_classified_entry:
  assumes "reachable v"
  shows "\<exists>v'. Add v name rdr wd = Inr v' \<and>
           length (readers v') = length (readers v) + 1 \<and>
           map Name (readers v') = map Name (readers v) @ [name] \<and>
           map Error (butlast (readers v')) = map Error (readers v) \<and>
           map (\<lambda>r. is_spinner (View r)) (butlast (readers v')) =
             map (\<lambda>r. is_spinner (View r)) (readers v) \<and>
           (case rdr of
              GzipReader \<Rightarrow>
                is_spinner (View (last (readers v'))) \<and>
                Error (last (readers v')) = Some ''cannot inspect gzip.Reader, use wrapped Reader''
            | OsFile x \<Rightarrow>
                (case w_stat wd of
                   Inl err \<Rightarrow>
                     is_spinner (View (last (readers v'))) \<and> Error (last (readers v')) = Some err
                 | Inr n \<Rightarrow>
                     \<not> is_spinner (View (last (readers v'))) \<and> Error (last (readers v')) = None)
            | OtherReader \<Rightarrow>
                is_spinner (View (last (readers v'))) \<and> Error (last (readers v')) = None)"
proof -
  define info where "info =
        (case rdr of
           GzipReader \<Rightarrow>
             \<lparr>Name = name, View = Spinner (newSpinner (w_now wd)),
              Error = Some ''cannot inspect gzip.Reader, use wrapped Reader''\<rparr>
         | OsFile x \<Rightarrow>
             (case wrapFile x (w_stat wd) (w_now wd) of
                Inl err \<Rightarrow>
                  \<lparr>Name = name, View = Spinner (newSpinner (w_now wd)), Error = Some err\<rparr>
              | Inr fw \<Rightarrow> \<lparr>Name = name, View = FileWrapper fw, Error = None\<rparr>)
         | OtherReader \<Rightarrow>
             \<lparr>Name = name, View = Spinner (newSpinner (w_now wd)), Error = None\<rparr>)"
  have nm: "Name info = name"
    by (simp add: info_def split: reader.splits sum.splits)
  have cls: "(case rdr of
              GzipReader \<Rightarrow>
                is_spinner (View info) \<and>
                Error info = Some ''cannot inspect gzip.Reader, use wrapped Reader''
            | OsFile x \<Rightarrow>
                (case w_stat wd of
                   Inl err \<Rightarrow> is_spinner (View info) \<and> Error info = Some err
                 | Inr n \<Rightarrow> \<not> is_spinner (View info) \<and> Error info = None)
            | OtherReader \<Rightarrow> is_spinner (View info) \<and> Error info = None)"
    by (simp add: info_def wrapFile_def split: reader.splits sum.splits)
  have okinfo: "view_ok (View info)"
    by (simp add: info_def newSpinner_def split: reader.splits sum.splits)
  have "list_all (\<lambda>r. view_ok (View r)) (readers (v\<lparr>readers := readers v @ [info]\<rparr>))"
    using reachable_ok[OF assms] okinfo by simp
  from redrawLocked_ok[OF this, of wd] obtain v' where
    rd: "redrawLocked (v\<lparr>readers := readers v @ [info]\<rparr>) wd = Inr v'"
    and rel: "list_all2 entry_rel (readers v @ [info]) (readers v')"
    by auto
  have add: "Add v name rdr wd = Inr v'"
    using rd by (simp add: Add_def info_def Let_def)
  note f = list_all2_snoc_last[OF rel]
  have last: "is_spinner (View (last (readers v'))) = is_spinner (View info)"
    "Error (last (readers v')) = Error info"
    using f(5) by (simp_all add: entry_rel_def)
  have cls': "(case rdr of
              GzipReader \<Rightarrow>
                is_spinner (View (last (readers v'))) \<and>
                Error (last (readers v')) = Some ''cannot inspect gzip.Reader, use wrapped Reader''
            | OsFile x \<Rightarrow>
                (case w_stat wd of
                   Inl err \<Rightarrow>
                     is_spinner (View (last (readers v'))) \<and> Error (last (readers v')) = Some err
                 | Inr n \<Rightarrow>
                     \<not> is_spinner (View (last (readers v'))) \<and> Error (last (readers v')) = None)
            | OtherReader \<Rightarrow>
                is_spinner (View (last (readers v'))) \<and> Error (last (readers v')) = None)"
    using cls by (simp only: last)
  have n': "map Name (readers v') = map Name (readers v) @ [name]"
    using f(2) by (simp only: nm)
  show ?thesis
    by (rule exI[of _ v']) (intro conjI add f(1) n' f(3) f(4) cls')
qed

theorem Add_appends_classified_entry_witness:
  "reachable (Start zero_Viz Second 0) \<and>
   (\<exists>v'. Add (Start zero_Viz Second 0) ''a'' (OsFile 3) ex_world = Inr v' \<and>
           length (readers v') = length (readers (Start zero_Viz Second 0)) + 1 \<and>
           \<not> is_spinner (View (last (readers v'))) \<and> Error (last (readers v')) = None)"
proof -
  from Add_appends_classified_entry [OF reachable.start, of Second 0 "''a''" "OsFile 3" ex_world]
  obtain v' where "Add (Start zero_Viz Second 0) ''a'' (OsFile 3) ex_world = Inr v'"
    "length (readers v') = length (readers (Start zero_Viz Second 0)) + 1"
    "\<not> is_spinner (View (last (readers v')))" "Error (last (readers v')) = None"
    by (auto simp add: ex_world_def)
  then show ?thesis using reachable.start [of Second 0] by blast
qed


lemma spinner_done_terminal:
  "spinner_readStatus (spinner_done s now) t =
     Inr (Percent_line (sp_elapsed (spinner_done s now)) (Finite 100), spinner_done s now)"
  using spinner_done_nonzero [of s now] by (simp add: spinner_readStatus_def)

lemma fileWrapper_done_terminal:
  "Truncate now Second \<noteq> fw_start w \<Longrightarrow>
   fileWrapper_readStatus (fileWrapper_done w now) t seek =
     (Percent_line (fw_elapsed (fileWrapper_done w now)) (Finite 100), fileWrapper_done w now)"
  using fileWrapper_done_zero_iff [of w now] by (simp add: fileWrapper_readStatus_def)

text \<open>
  C4. The claim: after \<open>Add(name, h)\<close> and \<open>Complete(name, err)\<close> every status query
  of the entry reports a frozen elapsed time and 100 percent, for every kind of
  handle and however little time passed. For a file of 1000 bytes added at 0.2 s
  and completed at 0.9 s, \<open>Complete\<close> leaves the entry as \<open>Add\<close> made it, with
  \<open>elapsed = 0\<close>; the status query at 5 s with the file at position 500 reports
  5 s and 50 percent.
\<close>

theorem Complete_in_first_second_not_terminal:
  "Add (Start zero_Viz Second 0) ''a'' (OsFile 3) ex_world =
     Inr (ex_Viz [\<lparr>Name = ''a'', View = FileWrapper ex_fileWrapper, Error = None\<rparr>]) \<and>
   Complete (ex_Viz [\<lparr>Name = ''a'', View = FileWrapper ex_fileWrapper, Error = None\<rparr>])
       ''a'' None 900000000 =
     ex_Viz [\<lparr>Name = ''a'', View = FileWrapper ex_fileWrapper, Error = None\<rparr>] \<and>
   readStatus (FileWrapper ex_fileWrapper) 5000000000 (Inr 500) =
     Inr (Percent_line 5000000000 (Finite 50), FileWrapper ex_fileWrapper)"
  by (simp add: Add_def Start_def zero_Viz_def ex_world_def wrapFile_def redrawLocked_def
      redraw_rows.simps fileWrapper_readStatus_def float64_of_int_small ex_Viz_def
      ex_fileWrapper_def Truncate_def Second_def round_float64_10 round_float64_50
      Complete_def Complete_loop.simps fileWrapper_done_def Sub_def minDuration_def
      maxDuration_def)


section \<open>The percentage of a file wrapper\<close>

lemma round_half_even_near:
  assumes "\<bar>t - of_int n\<bar> < 1 / 2"
  shows "round_half_even t = n"
proof (cases "of_int n \<le> t")
  case True
  then have "\<lfloor>t\<rfloor> = n" using assms by (intro floor_unique) (simp_all add: abs_less_iff)
  then show ?thesis using assms True by (simp add: round_half_even_def Let_def abs_less_iff)
next
  case False
  then have "\<lfloor>t\<rfloor> = n - 1" using assms by (intro floor_unique) (simp_all add: abs_less_iff)
  then show ?thesis using assms False by (simp add: round_half_even_def Let_def abs_less_iff)
qed

lemma pow2_numeral_vals:
  "pow2 (- 53) = 1 / 9007199254740992" "pow2 (- 9) = 1 / 512" "pow2 64 = 18446744073709551616"
  "pow2 (- 60) = 1 / 1152921504606846976" "pow2 59 = 576460752303423488"
  "pow2 73 = 9444732965739290427392"
  by (simp_all add: pow2_def)

lemma round_float64_pos:
  assumes "pow2 (- 100) \<le> x" "x \<le> pow2 100"
  shows "\<exists>y. round_float64 x = Finite y \<and> x * (1 - pow2 (- 53)) \<le> y \<and> y \<le> x * (1 + pow2 (- 53))"
proof -
  have xpos: "0 < x" using assms(1) pow2_pos[of "- 100"] by linarith
  have "pow2 (- 1022) \<le> pow2 (- 100)" by (rule pow2_mono) simp
  then have lo: "pow2 (- 1022) \<le> \<bar>x\<bar>" using assms(1) xpos by simp
  have "pow2 100 < pow2 1023" by (rule pow2_strict_mono) simp
  then have hi: "\<bar>x\<bar> < pow2 1023" using assms(2) xpos by simp
  from round_float64_rel[OF lo hi] obtain y where
    y: "round_float64 x = Finite y" and e: "\<bar>y - x\<bar> \<le> \<bar>x\<bar> * pow2 (- 53)" by blast
  have "x * (1 - pow2 (- 53)) \<le> y" "y \<le> x * (1 + pow2 (- 53))"
    using e xpos by (simp_all add: abs_le_iff algebra_simps)
  then show ?thesis using y by blast
qed

lemma quotient_bounds:
  fixes a b P S pf s z x :: rat
  assumes a: "0 < a" and b: "0 < b" and P: "0 \<le> P" and S: "0 < S"
    and pf: "P * a \<le> pf" "pf \<le> P * b"
    and s: "S * a \<le> s" "s \<le> S * b"
    and z: "(s / 100) * a \<le> z" "z \<le> (s / 100) * b"
    and x: "(pf / z) * a \<le> x" "x \<le> (pf / z) * b"
  shows "P / (S / 100) * (a * a / (b * b)) \<le> x" "x \<le> P / (S / 100) * (b * b / (a * a))"
proof -
  have zl: "S * a * a / 100 \<le> z"
  proof -
    have "S * a * a / 100 = (S * a / 100) * a" by simp
    also have "\<dots> \<le> (s / 100) * a" using s(1) a by (intro mult_right_mono) simp_all
    also have "\<dots> \<le> z" by (rule z(1))
    finally show ?thesis .
  qed
  have zu: "z \<le> S * b * b / 100"
  proof -
    have "z \<le> (s / 100) * b" by (rule z(2))
    also have "\<dots> \<le> (S * b / 100) * b" using s(2) b by (intro mult_right_mono) simp_all
    finally show ?thesis by simp
  qed
  have zlpos: "0 < S * a * a / 100" using S a by simp
  have zpos: "0 < z" using zlpos zl by linarith
  have pf0: "0 \<le> pf" using pf(1) P a by (meson mult_nonneg_nonneg less_imp_le order_trans)
  have Pb0: "0 \<le> P * b" using P b by simp
  have "x \<le> (pf / z) * b" by (rule x(2))
  also have "pf / z \<le> (P * b) / (S * a * a / 100)"
    using Pb0 pf(2) zlpos zl by (rule frac_le)
  then have "(pf / z) * b \<le> (P * b) / (S * a * a / 100) * b"
    using b by (intro mult_right_mono) simp_all
  also have "\<dots> = P / (S / 100) * (b * b / (a * a))"
    using a S by (simp add: field_simps)
  finally show "x \<le> P / (S / 100) * (b * b / (a * a))" .
  have Pa0: "0 \<le> P * a" using P a by simp
  have "P / (S / 100) * (a * a / (b * b)) = (P * a) / (S * b * b / 100) * a"
    using b S by (simp add: field_simps)
  also have "(P * a) / (S * b * b / 100) \<le> pf / z"
    using pf0 pf(1) zpos zu by (rule frac_le)
  then have "(P * a) / (S * b * b / 100) * a \<le> (pf / z) * a"
    using a by (intro mult_right_mono) simp_all
  also have "\<dots> \<le> x" by (rule x(1))
  finally show "P / (S / 100) * (a * a / (b * b)) \<le> x" .
qed

lemma round_float64_0: "round_float64 0 = Finite 0"
  by (simp add: round_float64_def)

text \<open>
  C8, the claim as stated: for every size \<open>S\<close> the percentage reported at \<open>p = S\<close> is
  100.00. For the empty file, \<open>S = 0\<close>: \<open>wrapFile\<close> stores \<open>sz = 0 / 100 = 0\<close>, and the
  query at position \<open>0\<close> reports \<open>0 / 0\<close>, which is NaN.
\<close>

theorem percent_of_empty_file_is_NaN:
  "wrapFile 3 (Inr 0) 0 = Inr ex_empty_fileWrapper \<and>
   fileWrapper_readStatus ex_empty_fileWrapper 0 (Inr 0) =
     (Percent_line 0 NaN, ex_empty_fileWrapper) \<and>
   hundredths NaN \<noteq> Some 10000"
  by (simp add: wrapFile_def fileWrapper_readStatus_def ex_empty_fileWrapper_def
      float64_of_int_small round_float64_0 Truncate_def Second_def Sub_def
      minDuration_def maxDuration_def)

lemma unit_roundoff_facts:
  "0 < 1 - pow2 (- 53)" "0 < 1 + pow2 (- 53)" "1 / 2 \<le> 1 - pow2 (- 53)" "1 + pow2 (- 53) \<le> 2"
  "(1 + pow2 (- 53)) * (1 + pow2 (- 53)) / ((1 - pow2 (- 53)) * (1 - pow2 (- 53))) \<le> 1 + 1 / 2 ^ 50"
  "1 - 1 / 2 ^ 50 \<le> (1 - pow2 (- 53)) * (1 - pow2 (- 53)) / ((1 + pow2 (- 53)) * (1 + pow2 (- 53)))"
  by (simp_all add: pow2_def)

lemma float64_of_int_pos:
  assumes "0 < n" "n < 2 ^ 63"
  shows "\<exists>y. float64_of_int n = Finite y \<and> of_int n * (1 - pow2 (- 53)) \<le> y \<and>
           y \<le> of_int n * (1 + pow2 (- 53)) \<and> 1 / 2 \<le> y \<and> y \<le> pow2 64"
proof -
  have n1: "(1::rat) \<le> of_int n" using assms(1) by simp
  have n2: "(of_int n :: rat) \<le> pow2 63"
  proof -
    have "(of_int n :: rat) \<le> of_int (2 ^ 63)" using assms(2) by (simp only: of_int_le_iff)
    then show ?thesis by (simp add: pow2_def)
  qed
  have "pow2 (- 100) \<le> pow2 0" by (rule pow2_mono) simp
  then have lo: "pow2 (- 100) \<le> of_int n" using n1 by (simp add: pow2_def)
  have "pow2 63 \<le> pow2 100" by (rule pow2_mono) simp
  then have hi: "(of_int n :: rat) \<le> pow2 100" using n2 by linarith
  from round_float64_pos[OF lo hi] obtain y where
    y: "round_float64 (of_int n) = Finite y"
    and yl: "of_int n * (1 - pow2 (- 53)) \<le> y" and yu: "y \<le> of_int n * (1 + pow2 (- 53))"
    by blast
  have "1 * (1 / 2) \<le> of_int n * (1 - pow2 (- 53))"
    using n1 unit_roundoff_facts(3) by (intro mult_mono) simp_all
  then have y1: "1 / 2 \<le> y" using yl by simp
  have "of_int n * (1 + pow2 (- 53)) \<le> pow2 63 * 2"
    using n2 unit_roundoff_facts(4) n1 unit_roundoff_facts(2) by (intro mult_mono) simp_all
  also have "\<dots> = pow2 64" using pow2_Suc[of 63] by simp
  finally have y2: "y \<le> pow2 64" using yu by simp
  show ?thesis using y yl yu y1 y2 by (simp add: float64_of_int_def)
qed

text \<open>On an empty file every position \<open>p > 0\<close> is reported as \<open>+Inf\<close>.\<close>

lemma percent_of_empty_file_is_PosInf:
  assumes p: "0 < p" "p < 2 ^ 63" and w: "wrapFile f (Inr 0) t0 = Inr w"
  shows "fileWrapper_readStatus w now (Inr p) =
           (Percent_line (Sub (Truncate now Second) (fw_start w)) PosInf, w)"
proof -
  from float64_of_int_pos[OF p] obtain pf where
    pf: "float64_of_int p = Finite pf" and pos: "1 / 2 \<le> pf" by blast
  have sz: "fw_sz w = Finite 0" and st: "fw_elapsed w = 0"
    using w by (auto simp add: wrapFile_def float64_of_int_small round_float64_0)
  show ?thesis using pos by (simp add: fileWrapper_readStatus_def st sz pf)
qed

text \<open>
  C8, amended: for a file of size \<open>S > 0\<close>, a status query that reads position
  \<open>p \<ge> 0\<close> (both in the range of \<open>int64\<close>) reports the \<open>float64\<close> quotient
  \<open>float64(p) / (float64(S) / 100.0)\<close>; this value is \<open>p / (S / 100)\<close> up to a relative
  rounding error of \<open>2\<^sup>-\<^sup>5\<^sup>0\<close>, and at \<open>p = S\<close> the verb \<open>%6.2f\<close> prints it as 100.00.
\<close>

theorem percent_of_position:
  assumes S: "0 < S" "S < 2 ^ 63" and p: "0 \<le> p" "p < 2 ^ 63"
    and w: "wrapFile f (Inr S) t0 = Inr w"
  shows "\<exists>x. fileWrapper_readStatus w now (Inr p) =
               (Percent_line (Sub (Truncate now Second) (fw_start w)) (Finite x), w) \<and>
             Finite x = fdiv (float64_of_int p) (fdiv (float64_of_int S) (Finite 100)) \<and>
             \<bar>x - of_int p / (of_int S / 100)\<bar> \<le> of_int p / (of_int S / 100) / 2 ^ 50 \<and>
             (p = S \<longrightarrow> hundredths (Finite x) = Some 10000)"
proof -
  define a :: rat where "a = 1 - pow2 (- 53)"
  define b :: rat where "b = 1 + pow2 (- 53)"
  note ur = unit_roundoff_facts[folded a_def b_def]
  define E :: rat where "E = of_int p / (of_int S / 100)"
  have Sr: "(0::rat) < of_int S" using S(1) by simp
  have E0: "0 \<le> E" using p(1) Sr by (simp add: E_def)
  from float64_of_int_pos[OF S] obtain s where
    s: "float64_of_int S = Finite s" and sl: "of_int S * a \<le> s" and su: "s \<le> of_int S * b"
    and s1: "1 / 2 \<le> s" and s2: "s \<le> pow2 64"
    by (auto simp add: a_def b_def)
  have "pow2 (- 100) \<le> pow2 (- 9)" by (rule pow2_mono) simp
  then have zlo: "pow2 (- 100) \<le> s / 100" using s1 by (simp add: pow2_numeral_vals)
  have "pow2 64 \<le> pow2 100" by (rule pow2_mono) simp
  then have zhi: "s / 100 \<le> pow2 100" using s2 s1 by simp
  from round_float64_pos[OF zlo zhi] obtain z where
    z: "round_float64 (s / 100) = Finite z" and zl: "(s / 100) * a \<le> z"
    and zu: "z \<le> (s / 100) * b"
    by (auto simp add: a_def b_def)
  have z1: "pow2 (- 9) \<le> z"
  proof -
    have "pow2 (- 9) \<le> (1 / 200) * (1 / 2)" by (simp add: pow2_numeral_vals)
    also have "(1 / 200) * (1 / 2) \<le> (s / 100) * a" using s1 ur(3) by (intro mult_mono) simp_all
    also note zl
    finally show ?thesis .
  qed
  have z2: "z \<le> pow2 59"
  proof -
    have "(s / 100) * b \<le> (pow2 64 / 100) * 2" using s2 s1 ur(4) ur(2) by (intro mult_mono) simp_all
    with zu have "z \<le> (pow2 64 / 100) * 2" by (rule order_trans)
    also have "\<dots> \<le> pow2 59" by (simp add: pow2_numeral_vals)
    finally show ?thesis .
  qed
  have zpos: "0 < z" using z1 pow2_pos[of "- 9"] by linarith
  have sz: "fw_sz w = Finite z" and st: "fw_elapsed w = 0"
    using w s z by (auto simp add: wrapFile_def)
  have rd: "fileWrapper_readStatus w now (Inr p) =
     (Percent_line (Sub (Truncate now Second) (fw_start w)) (fdiv (float64_of_int p) (Finite z)), w)"
    by (simp add: fileWrapper_readStatus_def st sz)
  have szeq: "fdiv (float64_of_int S) (Finite 100) = Finite z"
    by (simp add: s z)
  show ?thesis
  proof (cases "p = 0")
    case True
    have "fdiv (float64_of_int p) (Finite z) = Finite 0"
      using zpos True by (simp add: float64_of_int_small round_float64_0)
    then show ?thesis using rd szeq True S(1) by (simp add: E_def)
  next
    case False
    then have ppos: "0 < p" using p(1) by simp
    from float64_of_int_pos[OF ppos p(2)] obtain pf where
      pf: "float64_of_int p = Finite pf" and pfl: "of_int p * a \<le> pf"
      and pfu: "pf \<le> of_int p * b" and pf1: "1 / 2 \<le> pf" and pf2: "pf \<le> pow2 64"
      by (auto simp add: a_def b_def)
    have qlo: "pow2 (- 100) \<le> pf / z"
    proof -
      have "pow2 (- 100) \<le> pow2 (- 60)" by (rule pow2_mono) simp
      also have "\<dots> = (1 / 2) / pow2 59" by (simp add: pow2_numeral_vals)
      also have "\<dots> \<le> pf / z" using pf1 zpos z2 by (intro frac_le) simp_all
      finally show ?thesis .
    qed
    have qhi: "pf / z \<le> pow2 100"
    proof -
      have "pf / z \<le> pow2 64 / pow2 (- 9)"
        using pf2 z1 pow2_pos[of "- 9"] pow2_pos[of 64] by (intro frac_le) simp_all
      also have "\<dots> = pow2 73" by (simp add: pow2_numeral_vals)
      also have "\<dots> \<le> pow2 100" by (rule pow2_mono) simp
      finally show ?thesis .
    qed
    from round_float64_pos[OF qlo qhi] obtain x where
      x: "round_float64 (pf / z) = Finite x" and xl: "(pf / z) * a \<le> x"
      and xu: "x \<le> (pf / z) * b"
      by (auto simp add: a_def b_def)
    have fx: "fdiv (float64_of_int p) (Finite z) = Finite x"
      using zpos by (simp add: pf x)
    have P0: "(0::rat) \<le> of_int p" using p(1) by simp
    note qb = quotient_bounds[OF ur(1) ur(2) P0 Sr pfl pfu sl su zl zu xl xu, folded E_def]
    have up: "x \<le> E * (1 + 1 / 2 ^ 50)"
    proof -
      have "x \<le> E * (b * b / (a * a))" by (rule qb(2))
      also have "\<dots> \<le> E * (1 + 1 / 2 ^ 50)" using E0 ur(5) by (rule mult_left_mono[rotated])
      finally show ?thesis .
    qed
    have dn: "E * (1 - 1 / 2 ^ 50) \<le> x"
    proof -
      have "E * (1 - 1 / 2 ^ 50) \<le> E * (a * a / (b * b))"
        using E0 ur(6) by (rule mult_left_mono[rotated])
      also have "\<dots> \<le> x" by (rule qb(1))
      finally show ?thesis .
    qed
    have u1: "x - E \<le> E / 2 ^ 50" using up by (simp add: ring_distribs)
    have d1: "- (x - E) \<le> E / 2 ^ 50" using dn by (simp add: ring_distribs)
    have err: "\<bar>x - E\<bar> \<le> E / 2 ^ 50"
      using u1 d1 by (rule abs_leI)
    have hund: "hundredths (Finite x) = Some 10000" if "p = S"
    proof -
      have "E = 100" using that Sr by (simp add: E_def)
      then have "\<bar>x - 100\<bar> \<le> 100 / 2 ^ 50" using err by simp
      then have "x - 100 \<le> 100 / 2 ^ 50" "- (x - 100) \<le> 100 / 2 ^ 50"
        by (simp_all only: abs_le_iff)
      then have "x * 100 - 10000 < 1 / 2" "- (x * 100 - 10000) < 1 / 2"
        by simp_all
      then have "\<bar>x * 100 - 10000\<bar> < 1 / 2" by (rule abs_less_iff [THEN iffD2, OF conjI])
      then have "\<bar>x * 100 - of_int 10000\<bar> < 1 / 2" by simp
      then have "round_half_even (x * 100) = 10000" by (rule round_half_even_near)
      then show ?thesis by simp
    qed
    show ?thesis using rd szeq fx err hund by (simp add: E_def)
  qed
qed

theorem percent_of_position_witness:
  "(0::int) < 7 \<and> (7::int) < 2 ^ 63 \<and> (0::int) \<le> 7 \<and>
   wrapFile 3 (Inr 7) 0 = Inr \<lparr>fw_sz = fdiv (float64_of_int 7) (Finite 100), fw_f = 3, fw_start = 0, fw_elapsed = 0\<rparr> \<and>
   (\<exists>x. fileWrapper_readStatus \<lparr>fw_sz = fdiv (float64_of_int 7) (Finite 100), fw_f = 3, fw_start = 0, fw_elapsed = 0\<rparr> 0 (Inr 7) =
               (Percent_line 0 (Finite x), \<lparr>fw_sz = fdiv (float64_of_int 7) (Finite 100), fw_f = 3, fw_start = 0, fw_elapsed = 0\<rparr>) \<and>
        hundredths (Finite x) = Some 10000)"
proof -
  have w: "wrapFile 3 (Inr 7) 0 = Inr \<lparr>fw_sz = fdiv (float64_of_int 7) (Finite 100), fw_f = 3, fw_start = 0, fw_elapsed = 0\<rparr>"
    by (simp add: wrapFile_def Truncate_def Second_def)
  have t: "Sub (Truncate 0 Second) 0 = 0"
    by (simp add: Truncate_def Second_def Sub_def minDuration_def maxDuration_def)
  from percent_of_position [of 7 7 3 0 _ 0, OF _ _ _ _ w]
  show ?thesis using w t by auto
qed



section \<open>The bounded dispatcher: invariant, progress, termination\<close>



























lemma BoundedExec_init_too_large:
  "2 ^ 60 \<le> n \<or> int maxbuf < 16 * n \<Longrightarrow> BoundedExec_init maxbuf n = Inl MakechanSizeOutOfRange"
  by (auto simp add: BoundedExec_init_def)







lemma successors_idle_Spawning:
  "n \<le> 0 \<Longrightarrow> successors n names (idle_exec (Spawning 0)) = [idle_exec (Sending names)]"
  by (simp add: successors_def main_steps_def idle_exec_def)

lemma successors_idle_Sending:
  "names \<noteq> [] \<Longrightarrow> successors n names (idle_exec (Sending names)) = []"
  by (cases names) (simp_all add: successors_def main_steps_def idle_exec_def handoffs_def)

text \<open>
  C9, the claim as stated: a concurrency \<open>n \<le> 0\<close> is rejected or raised to 1, so that
  every item is still dispatched. \<open>BoundedExec(0, ["a"], nameFunc)\<close> makes an
  unbuffered channel and starts no worker; its only step leads to the first send,
  where no step is possible: the call blocks with no item dispatched. With
  \<open>n = -1\<close> the call panics in \<open>make\<close>.
\<close>

theorem BoundedExec_zero_blocks_on_first_send:
  "BoundedExec_init ex_lim 0 = Inr (idle_exec (Spawning 0)) \<and>
   successors 0 [''a''] (idle_exec (Spawning 0)) = [idle_exec (Sending [''a''])] \<and>
   successors 0 [''a''] (idle_exec (Sending [''a''])) = [] \<and>
   e_invoked (idle_exec (Sending [''a''])) = [] \<and>
   e_workers (idle_exec (Sending [''a''])) = [] \<and>
   BoundedExec_init ex_lim (- 1) = Inl MakechanSizeOutOfRange"
  by (simp add: successors_def main_steps_def idle_exec_def handoffs_def BoundedExec_init_def)

text \<open>
  C9, amended: \<open>BoundedExec\<close> neither rejects nor raises \<open>n \<le> 0\<close>. For \<open>n < 0\<close> it
  panics when it makes the channel, whatever the limit \<open>maxbuf\<close> of the runtime.
  For \<open>n = 0\<close> and a non-empty \<open>names\<close> the only states of a run are the start and
  the first send, with no worker and no call of \<open>nameFunc\<close>, and from the first
  send no step is possible: the call blocks for good.
\<close>

theorem BoundedExec_nonpositive:
  assumes "n \<le> 0" and "names \<noteq> []"
  shows "if n < 0 then BoundedExec_init maxbuf n = Inl MakechanSizeOutOfRange
         else BoundedExec_init maxbuf n = Inr (idle_exec (Spawning 0)) \<and>
              successors n names (idle_exec (Spawning 0)) = [idle_exec (Sending names)] \<and>
              successors n names (idle_exec (Sending names)) = [] \<and>
              (\<forall>s. reach maxbuf n names s \<longrightarrow>
                 s = idle_exec (Spawning 0) \<or> s = idle_exec (Sending names))"
proof (cases "n < 0")
  case True
  then show ?thesis by (simp add: BoundedExec_init_def)
next
  case False
  then have n0: "n = 0" using assms(1) by simp
  have i: "BoundedExec_init maxbuf n = Inr (idle_exec (Spawning 0))"
    by (simp add: n0 BoundedExec_init_def idle_exec_def)
  have a: "successors n names (idle_exec (Spawning 0)) = [idle_exec (Sending names)]"
    using assms(1) by (rule successors_idle_Spawning)
  have b: "successors n names (idle_exec (Sending names)) = []"
    using assms(2) by (rule successors_idle_Sending)
  have c: "s = idle_exec (Spawning 0) \<or> s = idle_exec (Sending names)" if "reach maxbuf n names s" for s
    using that
  proof (induction rule: reach.induct)
    case (init s)
    then show ?case using i by simp
  next
    case (step s s')
    then show ?case using a b by auto
  qed
  show ?thesis using False i a b c by simp
qed

theorem BoundedExec_nonpositive_witness:
  "(0::int) \<le> 0 \<and> [''a''] \<noteq> [] \<and>
   BoundedExec_init ex_lim 0 = Inr (idle_exec (Spawning 0)) \<and>
   successors 0 [''a''] (idle_exec (Sending [''a''])) = [] \<and>
   (- 1::int) \<le> 0 \<and> BoundedExec_init ex_lim (- 1) = Inl MakechanSizeOutOfRange"
  using BoundedExec_nonpositive [of 0 "[''a'']" ex_lim]
    BoundedExec_nonpositive [of "- 1" "[''a'']" ex_lim]
  by simp

end
